theory Spec2Isabelle
  imports Complex_Main "HOL-Library.Signed_Division" "HOL-Library.Log_Nat"
begin

section \<open>Conventions of the embedding\<close>

text \<open>
  The development embeds \<^verbatim>\<open>buffer/prioritized_replay.h\<close>: the ring store
  \<^verbatim>\<open>ConcurrentQueue\<close> and the replay layer \<^verbatim>\<open>PrioritizedReplay\<close>.

  \<^item> A C++ \<^verbatim>\<open>int\<close> is an \<open>int\<close>. The conversion \<^verbatim>\<open>int(1.25 * capacity)\<close> of the
    constructor is checked against the 32-bit range; the index arithmetic of the ring
    works on values below twice the capacity.  The operator \<^verbatim>\<open>%\<close> is the truncating
    remainder \<open>smod\<close>.
  \<^item> \<^verbatim>\<open>float\<close> and \<^verbatim>\<open>double\<close> are the IEEE 754 formats binary32 and binary64,
    values of the type \<open>ieee\<close> below: every operation is rounded to nearest, ties to
    even, in the format the C++ expression has (no fused or extended evaluation),
    with signed zeros, infinities and NaN.
  \<^item> A failed \<^verbatim>\<open>assert\<close> (assertions are compiled in) ends the process: the
    operation returns \<open>Inl AssertionFailure\<close>. A wait on a condition variable whose
    predicate is false returns \<open>Inl Blocked\<close>: the caller stays suspended until another
    thread changes the store. A C++ exception (of the standard library or of the tensor
    library) is \<open>Inl LibraryError\<close>.
  \<^item> A \<^verbatim>\<open>std::vector\<close> is a list indexed by \<open>nat\<close>; an access out of range is
    undefined behaviour in the source and is excluded by the invariant \<open>store_inv\<close>.
    Whether the allocator can provide the vectors of a store of \<open>n\<close> slots is the
    parameter \<open>alloc\<close> of the constructors.
  \<^item> A data member \<^verbatim>\<open>name_\<close> of the source is the record field \<open>name_m\<close> (a name
    cannot end in an underscore here).
  \<^item> The payload type \<^verbatim>\<open>DataType\<close> is a type variable; its default value and its
    packing constructor, the tensor power \<^verbatim>\<open>torch::pow\<close>, the draws of the random
    generator and the set of usable devices are parameters of the functions that use
    them. A tensor holds 32-bit floats and its elementwise arithmetic is that of
    binary32.
\<close>

section \<open>Floating-point numbers\<close>

text \<open>A value of an IEEE 754 binary format: a finite number (\<open>Num 0\<close> is the positive
  zero), the negative zero, the two infinities, or a NaN.\<close>

datatype ieee = Num real | MinusZero | PlusInf | MinusInf | NaN

text \<open>A format: its precision in bits and its least and greatest exponents.\<close>

type_synonym format = "nat \<times> int \<times> int"

definition binary32 :: format where
  "binary32 = (24, - 126, 127)"

definition binary64 :: format where
  "binary64 = (53, - 1022, 1023)"

text \<open>\<open>ilog2 x\<close> is the exponent \<open>e\<close> with \<open>2\<^sup>e \<le> |x| < 2\<^sup>e\<^sup>+\<^sup>1\<close>, for \<open>x \<noteq> 0\<close>.\<close>

definition ilog2 :: "real \<Rightarrow> int" where
  "ilog2 x = (if 1 \<le> \<bar>x\<bar> then bitlen \<lfloor>\<bar>x\<bar>\<rfloor> - 1 else - bitlen (\<lceil>1 / \<bar>x\<bar>\<rceil> - 1))"

text \<open>The nearest integer, a tie going to the even one.\<close>

definition round_even :: "real \<Rightarrow> int" where
  "round_even x =
     (let n = \<lfloor>x\<rfloor>; d = x - of_int n
      in if d < 1 / 2 then n else if 1 / 2 < d then n + 1 else if even n then n else n + 1)"

text \<open>Rounding to the precision of the format with the exponent unbounded above: the
  result is a multiple of the unit in the last place of \<open>x\<close>, which below the least
  exponent is that of the subnormal numbers.\<close>

definition round_real :: "format \<Rightarrow> real \<Rightarrow> real" where
  "round_real f x =
     (case f of (p, emin, emax) \<Rightarrow>
        let q = max (ilog2 x) emin - (int p - 1)
        in of_int (round_even (x / 2 powi q)) * 2 powi q)"

text \<open>The greatest finite number of the format.\<close>

definition largest :: "format \<Rightarrow> real" where
  "largest f = (case f of (p, emin, emax) \<Rightarrow> (2 ^ p - 1) * 2 powi (emax - (int p - 1)))"

text \<open>The value of the format nearest to the real \<open>x\<close>: an infinity when the rounded
  magnitude exceeds the greatest finite number; a zero carries the sign of \<open>x\<close>.\<close>

definition rnd :: "format \<Rightarrow> real \<Rightarrow> ieee" where
  "rnd f x =
     (let r = round_real f x
      in if largest f < r then PlusInf else if r < - largest f then MinusInf
         else if r = 0 then (if x < 0 then MinusZero else Num 0) else Num r)"

primrec val :: "ieee \<Rightarrow> real" where
  "val (Num r) = r"
| "val MinusZero = 0"
| "val PlusInf = 0"
| "val MinusInf = 0"
| "val NaN = 0"

primrec sign_bit :: "ieee \<Rightarrow> bool" where
  "sign_bit (Num r) = (r < 0)"
| "sign_bit MinusZero = True"
| "sign_bit PlusInf = False"
| "sign_bit MinusInf = True"
| "sign_bit NaN = False"

definition is_inf :: "ieee \<Rightarrow> bool" where
  "is_inf a \<longleftrightarrow> a = PlusInf \<or> a = MinusInf"

definition is_zero :: "ieee \<Rightarrow> bool" where
  "is_zero a \<longleftrightarrow> a = Num 0 \<or> a = MinusZero"

primrec fneg :: "ieee \<Rightarrow> ieee" where
  "fneg (Num r) = (if r = 0 then MinusZero else Num (- r))"
| "fneg MinusZero = Num 0"
| "fneg PlusInf = MinusInf"
| "fneg MinusInf = PlusInf"
| "fneg NaN = NaN"

text \<open>The four operations, rounded into the format \<open>f\<close>.\<close>

definition fadd :: "format \<Rightarrow> ieee \<Rightarrow> ieee \<Rightarrow> ieee" where
  "fadd f a b =
     (if a = NaN \<or> b = NaN then NaN
      else if is_inf a then (if is_inf b \<and> a \<noteq> b then NaN else a)
      else if is_inf b then b
      else if val a + val b = 0 then (if a = MinusZero \<and> b = MinusZero then MinusZero else Num 0)
      else rnd f (val a + val b))"

definition fsub :: "format \<Rightarrow> ieee \<Rightarrow> ieee \<Rightarrow> ieee" where
  "fsub f a b = fadd f a (fneg b)"

definition signed_zero :: "bool \<Rightarrow> ieee" where
  "signed_zero neg = (if neg then MinusZero else Num 0)"

definition signed_inf :: "bool \<Rightarrow> ieee" where
  "signed_inf neg = (if neg then MinusInf else PlusInf)"

definition fmul :: "format \<Rightarrow> ieee \<Rightarrow> ieee \<Rightarrow> ieee" where
  "fmul f a b =
     (if a = NaN \<or> b = NaN then NaN
      else if is_inf a \<or> is_inf b then
        (if is_zero a \<or> is_zero b then NaN else signed_inf (sign_bit a \<noteq> sign_bit b))
      else if is_zero a \<or> is_zero b then signed_zero (sign_bit a \<noteq> sign_bit b)
      else rnd f (val a * val b))"

definition fdiv :: "format \<Rightarrow> ieee \<Rightarrow> ieee \<Rightarrow> ieee" where
  "fdiv f a b =
     (if a = NaN \<or> b = NaN then NaN
      else if is_inf a then (if is_inf b then NaN else signed_inf (sign_bit a \<noteq> sign_bit b))
      else if is_inf b then signed_zero (sign_bit a \<noteq> sign_bit b)
      else if is_zero b then
        (if is_zero a then NaN else signed_inf (sign_bit a \<noteq> sign_bit b))
      else if is_zero a then signed_zero (sign_bit a \<noteq> sign_bit b)
      else rnd f (val a / val b))"

text \<open>The comparisons \<^verbatim>\<open><\<close> and \<^verbatim>\<open><=\<close>: false as soon as one side is a NaN; the two
  zeros are equal.\<close>

definition fless :: "ieee \<Rightarrow> ieee \<Rightarrow> bool" where
  "fless a b \<longleftrightarrow>
     a \<noteq> NaN \<and> b \<noteq> NaN \<and> a \<noteq> PlusInf \<and> b \<noteq> MinusInf \<and>
     (a = MinusInf \<or> b = PlusInf \<or> val a < val b)"

definition fle :: "ieee \<Rightarrow> ieee \<Rightarrow> bool" where
  "fle a b \<longleftrightarrow>
     a \<noteq> NaN \<and> b \<noteq> NaN \<and>
     (a = MinusInf \<or> b = PlusInf \<or> (\<not> is_inf a \<and> \<not> is_inf b \<and> val a \<le> val b))"

text \<open>\<^verbatim>\<open>std::min(a, b)\<close>: \<^verbatim>\<open>b\<close> when \<^verbatim>\<open>b < a\<close>, otherwise \<^verbatim>\<open>a\<close>.\<close>

definition fmin :: "ieee \<Rightarrow> ieee \<Rightarrow> ieee" where
  "fmin a b = (if fless b a then b else a)"

text \<open>Conversions: of a value to the format \<open>f\<close> (the narrowing of a \<^verbatim>\<open>double\<close> to
  \<^verbatim>\<open>float\<close>; the widening of a \<^verbatim>\<open>float\<close> changes nothing), and of an \<^verbatim>\<open>int\<close>.\<close>

definition to_format :: "format \<Rightarrow> ieee \<Rightarrow> ieee" where
  "to_format f a = (case a of Num r \<Rightarrow> rnd f r | _ \<Rightarrow> a)"

definition of_int_format :: "format \<Rightarrow> int \<Rightarrow> ieee" where
  "of_int_format f i = rnd f (of_int i)"

text \<open>The constant \<^verbatim>\<open>(float)0.2\<close>: the \<^verbatim>\<open>double\<close> nearest to \<open>0.2\<close>, narrowed.\<close>

definition float_0_2 :: ieee where
  "float_0_2 = to_format binary32 (rnd binary64 (2 / 10))"

text \<open>A value is gridded when, if it is finite, it is a multiple of the least positive
  \<^verbatim>\<open>double\<close>, \<open>2\<^sup>-\<^sup>1\<^sup>0\<^sup>7\<^sup>4\<close>.\<close>

definition gridded :: "ieee \<Rightarrow> bool" where
  "gridded a \<longleftrightarrow> (\<forall>r. a = Num r \<longrightarrow> (\<exists>m::int. r = of_int m * 2 powi (- 1074)))"

text \<open>The conversion \<^verbatim>\<open>int(x)\<close> of a \<^verbatim>\<open>double\<close> truncates towards zero. For a value
  whose truncation is outside the range of \<^verbatim>\<open>int\<close> the conversion is undefined in
  C++; the instruction it compiles to on x86-64 yields the least \<^verbatim>\<open>int\<close>, and that is
  the value taken here.\<close>

definition trunc_int :: "real \<Rightarrow> int" where
  "trunc_int x = (if 0 \<le> x then \<lfloor>x\<rfloor> else \<lceil>x\<rceil>)"

definition int_of_double :: "ieee \<Rightarrow> int" where
  "int_of_double a =
     (case a of
        Num r \<Rightarrow>
          if - 2147483648 \<le> trunc_int r \<and> trunc_int r \<le> 2147483647 then trunc_int r
          else - 2147483648
      | MinusZero \<Rightarrow> 0
      | _ \<Rightarrow> - 2147483648)"

datatype error = AssertionFailure | Blocked | LibraryError

section \<open>ConcurrentQueue\<close>

record 'a ConcurrentQueue =
  capacity :: int
  head_m :: int
  tail_m :: int
  size_m :: int
  safe_tail_m :: int
  safe_size_m :: int
  sum_m :: ieee
  evicted_m :: "bool list"
  elements_m :: "'a list"
  weights_m :: "ieee list"

text \<open>The constructor; \<open>d\<close> is the default-constructed payload filling \<^verbatim>\<open>elements_\<close>.
  The three vectors are built with \<^verbatim>\<open>capacity\<close> entries: a negative count (converted
  to an unsigned size beyond every vector's maximum) or a failed allocation throws.\<close>

definition ConcurrentQueue ::
  "(int \<Rightarrow> bool) \<Rightarrow> 'a \<Rightarrow> int \<Rightarrow> error + 'a ConcurrentQueue" where
  "ConcurrentQueue alloc d cap =
     (if cap < 0 \<or> \<not> alloc cap then Inl LibraryError
      else Inr \<lparr>capacity = cap, head_m = 0, tail_m = 0, size_m = 0, safe_tail_m = 0,
             safe_size_m = 0, sum_m = Num 0, evicted_m = replicate (nat cap) False,
             elements_m = replicate (nat cap) d, weights_m = replicate (nat cap) (Num 0)\<rparr>)"

text \<open>\<^verbatim>\<open>safe_size(float* sum)\<close>: the committed size, and the running sum read under the
  same lock and narrowed from \<^verbatim>\<open>double\<close> to \<^verbatim>\<open>float\<close> by \<^verbatim>\<open>*sum = sum_\<close>.\<close>

definition safe_size :: "'a ConcurrentQueue \<Rightarrow> int \<times> ieee" where
  "safe_size q = (safe_size_m q, to_format binary32 (sum_m q))"

text \<open>\<^verbatim>\<open>ConcurrentQueue::size()\<close>: the reserved size.\<close>

definition size_queue :: "'a ConcurrentQueue \<Rightarrow> int" where
  "size_queue q = size_m q"

text \<open>\<^verbatim>\<open>check_size\<close>: \<open>True\<close> when none of its three assertions fails.\<close>

definition check_size :: "'a ConcurrentQueue \<Rightarrow> int \<Rightarrow> int \<Rightarrow> int \<Rightarrow> bool" where
  "check_size q hd_idx tl_idx sz =
     (if sz = 0 then tl_idx = hd_idx
      else if tl_idx > hd_idx then tl_idx - hd_idx = sz
      else tl_idx + capacity q - hd_idx = sz)"

subsection \<open>block_append, in its three phases\<close>

text \<open>Phase 1, under the lock: wait for space, reserve \<open>block_size\<close> slots at the tail.
  Returns the store and the locals \<^verbatim>\<open>start\<close> and \<^verbatim>\<open>end\<close>.\<close>

definition block_append_reserve ::
  "'a ConcurrentQueue \<Rightarrow> int \<Rightarrow> error + ('a ConcurrentQueue \<times> int \<times> int)" where
  "block_append_reserve q block_size =
     (if \<not> (size_m q + block_size \<le> capacity q) then Inl Blocked
      else
        let start = tail_m q;
            fin = (tail_m q + block_size) smod capacity q;
            q' = q\<lparr>tail_m := fin, size_m := size_m q + block_size\<rparr>
        in if check_size q' (head_m q') (tail_m q') (size_m q') then Inr (q', start, fin)
           else Inl AssertionFailure)"

text \<open>Phase 2, outside the lock: the loop that copies the block and its weights into the
  reserved slots and adds the weights up in the \<^verbatim>\<open>float\<close> local \<^verbatim>\<open>sum\<close>.\<close>

fun copy_loop ::
  "int \<Rightarrow> int \<Rightarrow> 'a list \<Rightarrow> ieee list \<Rightarrow> nat \<Rightarrow> 'a list \<Rightarrow> ieee list \<Rightarrow> ieee
     \<Rightarrow> 'a list \<times> ieee list \<times> ieee" where
  "copy_loop cap start [] ws i E W s = (E, W, s)"
| "copy_loop cap start (x # xs) ws i E W s =
     (let j = (start + int i) smod cap
      in copy_loop cap start xs ws (Suc i) (E[nat j := x]) (W[nat j := ws ! i])
           (fadd binary32 s (ws ! i)))"

definition block_append_copy ::
  "'a ConcurrentQueue \<Rightarrow> int \<Rightarrow> 'a list \<Rightarrow> ieee list \<Rightarrow> error + ('a ConcurrentQueue \<times> ieee)" where
  "block_append_copy q start block ws =
     (if length ws \<noteq> length block then Inl AssertionFailure
      else
        case copy_loop (capacity q) start block ws 0 (elements_m q) (weights_m q) (Num 0) of
          (E, W, s) \<Rightarrow> Inr (q\<lparr>elements_m := E, weights_m := W\<rparr>, s))"

text \<open>Phase 3, under the lock again: wait until the committed tail has reached
  \<^verbatim>\<open>start\<close>, then publish the block; \<^verbatim>\<open>sum_ += sum\<close> is an addition of
  \<^verbatim>\<open>double\<close>.\<close>

definition block_append_commit ::
  "'a ConcurrentQueue \<Rightarrow> int \<Rightarrow> int \<Rightarrow> int \<Rightarrow> ieee \<Rightarrow> error + 'a ConcurrentQueue" where
  "block_append_commit q start fin block_size s =
     (if safe_tail_m q \<noteq> start then Inl Blocked
      else
        let q' = q\<lparr>safe_tail_m := fin, safe_size_m := safe_size_m q + block_size,
                   sum_m := fadd binary64 (sum_m q) s\<rparr>
        in if check_size q' (head_m q') (safe_tail_m q') (safe_size_m q') then Inr q'
           else Inl AssertionFailure)"

text \<open>The whole call, run by one thread with no other thread in between.\<close>

definition block_append ::
  "'a ConcurrentQueue \<Rightarrow> 'a list \<Rightarrow> ieee list \<Rightarrow> error + 'a ConcurrentQueue" where
  "block_append q block ws =
     (case block_append_reserve q (int (length block)) of
        Inl e \<Rightarrow> Inl e
      | Inr (q1, start, fin) \<Rightarrow>
          (case block_append_copy q1 start block ws of
             Inl e \<Rightarrow> Inl e
           | Inr (q2, s) \<Rightarrow> block_append_commit q2 start fin (int (length block)) s))"

subsection \<open>block_pop, update and the unlocked reads\<close>

text \<open>The loop of \<^verbatim>\<open>block_pop\<close>; \<^verbatim>\<open>diff\<close> is a \<^verbatim>\<open>double\<close>.\<close>

fun pop_loop ::
  "int \<Rightarrow> ieee list \<Rightarrow> nat \<Rightarrow> ieee \<Rightarrow> int \<Rightarrow> bool list \<Rightarrow> ieee \<times> int \<times> bool list" where
  "pop_loop cap W 0 diff hd_idx E = (diff, hd_idx, E)"
| "pop_loop cap W (Suc n) diff hd_idx E =
     pop_loop cap W n (fsub binary64 diff (W ! nat hd_idx)) ((hd_idx + 1) smod cap)
       (E[nat hd_idx := True])"

definition block_pop :: "'a ConcurrentQueue \<Rightarrow> int \<Rightarrow> error + 'a ConcurrentQueue" where
  "block_pop q block_size =
     (case pop_loop (capacity q) (weights_m q) (nat block_size) (Num 0) (head_m q)
             (evicted_m q) of
        (diff, hd_idx, E) \<Rightarrow>
          let q' = q\<lparr>evicted_m := E, sum_m := fadd binary64 (sum_m q) diff, head_m := hd_idx,
                     safe_size_m := safe_size_m q - block_size, size_m := size_m q - block_size\<rparr>
          in if \<not> (safe_size_m q' \<ge> 0) then Inl AssertionFailure
             else if \<not> check_size q' (head_m q') (safe_tail_m q') (safe_size_m q')
               then Inl AssertionFailure
             else Inr q')"

text \<open>The loop of \<^verbatim>\<open>update\<close>: \<open>i\<close> is the position in \<^verbatim>\<open>ids\<close>, \<open>W\<close> the weights so
  far and \<open>diff\<close> the accumulated difference. The difference of the two \<^verbatim>\<open>float\<close>
  weights is a \<^verbatim>\<open>float\<close>, added to the \<^verbatim>\<open>double\<close> \<^verbatim>\<open>diff\<close>.\<close>

fun update_loop ::
  "ieee list \<Rightarrow> bool list \<Rightarrow> int list \<Rightarrow> nat \<Rightarrow> ieee list \<Rightarrow> ieee \<Rightarrow> ieee list \<times> ieee" where
  "update_loop ws E [] i W diff = (W, diff)"
| "update_loop ws E (slot_id # ids) i W diff =
     (if E ! nat slot_id then update_loop ws E ids (Suc i) W diff
      else update_loop ws E ids (Suc i) (W[nat slot_id := ws ! i])
             (fadd binary64 diff (fsub binary32 (ws ! i) (W ! nat slot_id))))"

definition update :: "'a ConcurrentQueue \<Rightarrow> int list \<Rightarrow> ieee list \<Rightarrow> 'a ConcurrentQueue" where
  "update q ids ws =
     (case update_loop ws (evicted_m q) ids 0 (weights_m q) (Num 0) of
        (W, diff) \<Rightarrow> q\<lparr>weights_m := W, sum_m := fadd binary64 (sum_m q) diff\<rparr>)"

definition get_element_and_mark :: "'a ConcurrentQueue \<Rightarrow> int \<Rightarrow> 'a \<times> 'a ConcurrentQueue" where
  "get_element_and_mark q idx =
     (let slot_id = (head_m q + idx) smod capacity q
      in (elements_m q ! nat slot_id, q\<lparr>evicted_m := (evicted_m q)[nat slot_id := False]\<rparr>))"

text \<open>\<^verbatim>\<open>get_weight(idx, &id)\<close>: the weight and the physical index written to \<^verbatim>\<open>*id\<close>.\<close>

definition get_weight :: "'a ConcurrentQueue \<Rightarrow> int \<Rightarrow> ieee \<times> int" where
  "get_weight q idx =
     (let slot_id = (head_m q + idx) smod capacity q in (weights_m q ! nat slot_id, slot_id))"

subsection \<open>Threads inside block_append, reachable states, the ring invariant\<close>

text \<open>A producer between phase 1 and phase 3 holds its locals: \<^verbatim>\<open>start\<close>,
  \<^verbatim>\<open>end\<close>, the block and its weights.\<close>

record 'a pending =
  p_start :: int
  p_fin :: int
  p_block :: "'a list"
  p_weights :: "ieee list"

definition pending_total :: "'a pending list \<Rightarrow> int" where
  "pending_total ps = sum_list (map (\<lambda>p. int (length (p_block p))) ps)"

text \<open>The states of a store and of the producers inside \<^verbatim>\<open>block_append\<close>, reached
  from the constructor by the steps that take the store's lock (reserve, commit, the end
  of a pop or of an update) and by \<^verbatim>\<open>get_element_and_mark\<close>. A step is taken only
  when its wait is over and none of its assertions fails. The copy of phase 2 is taken
  together with the commit: no other step reads the slots it writes. A pop of a negative
  count (which runs no loop iteration) is considered when no producer is inside
  \<^verbatim>\<open>block_append\<close>.\<close>

inductive cq_reach :: "'a ConcurrentQueue \<Rightarrow> 'a pending list \<Rightarrow> bool" where
  init: "0 < cap \<Longrightarrow> ConcurrentQueue alloc d cap = Inr q \<Longrightarrow> cq_reach q []"
| reserve: "cq_reach q ps \<Longrightarrow>
      block_append_reserve q (int (length block)) = Inr (q', start, fin) \<Longrightarrow>
      cq_reach q' (ps @ [\<lparr>p_start = start, p_fin = fin, p_block = block, p_weights = ws\<rparr>])"
| commit: "cq_reach q ps \<Longrightarrow> k < length ps \<Longrightarrow>
      block_append_copy q (p_start (ps ! k)) (p_block (ps ! k)) (p_weights (ps ! k))
        = Inr (q1, s) \<Longrightarrow>
      block_append_commit q1 (p_start (ps ! k)) (p_fin (ps ! k))
         (int (length (p_block (ps ! k)))) s = Inr q2 \<Longrightarrow>
      cq_reach q2 (take k ps @ drop (Suc k) ps)"
| pop: "cq_reach q ps \<Longrightarrow> 0 \<le> n \<or> ps = [] \<Longrightarrow> block_pop q n = Inr q' \<Longrightarrow>
      cq_reach q' ps"
| upd: "cq_reach q ps \<Longrightarrow> \<forall>i \<in> set ids. 0 \<le> i \<and> i < capacity q \<Longrightarrow>
      cq_reach (update q ids ws) ps"
| mark: "cq_reach q ps \<Longrightarrow> 0 \<le> idx \<Longrightarrow> cq_reach (snd (get_element_and_mark q idx)) ps"

text \<open>The invariant of the ring: the sizes are ordered, both tails are the head advanced
  by their size modulo the capacity, the slots reserved and not committed are those of
  the producers inside \<^verbatim>\<open>block_append\<close>, and the three vectors have \<open>capacity\<close>
  entries.\<close>

definition store_inv :: "'a ConcurrentQueue \<Rightarrow> 'a pending list \<Rightarrow> bool" where
  "store_inv q ps \<longleftrightarrow>
     0 < capacity q \<and> 0 \<le> head_m q \<and> head_m q < capacity q \<and>
     0 \<le> safe_size_m q \<and> safe_size_m q \<le> size_m q \<and> size_m q \<le> capacity q \<and>
     tail_m q = (head_m q + size_m q) mod capacity q \<and>
     safe_tail_m q = (head_m q + safe_size_m q) mod capacity q \<and>
     size_m q - safe_size_m q = pending_total ps \<and>
     (\<forall>p \<in> set ps. p_fin p = (p_start p + int (length (p_block p))) mod capacity q) \<and>
     length (evicted_m q) = nat (capacity q) \<and>
     length (elements_m q) = nat (capacity q) \<and>
     length (weights_m q) = nat (capacity q)"

section \<open>PrioritizedReplay\<close>

text \<open>A tensor of 32-bit floats: its number of dimensions and its contents in storage
  order. For a one-dimensional tensor \<^verbatim>\<open>size(0)\<close> is the number of entries.\<close>

record tensor =
  t_dim :: nat
  t_data :: "ieee list"

definition tensor1 :: "ieee list \<Rightarrow> tensor" where
  "tensor1 xs = \<lparr>t_dim = 1, t_data = xs\<rparr>"

definition size0 :: "tensor \<Rightarrow> int" where
  "size0 t = int (length (t_data t))"

text \<open>\<^verbatim>\<open>torch::pow(t, e)\<close>, elementwise, over the scalar power \<open>pw\<close> of the library.\<close>

definition tensor_pow :: "(ieee \<Rightarrow> ieee \<Rightarrow> ieee) \<Rightarrow> tensor \<Rightarrow> ieee \<Rightarrow> tensor" where
  "tensor_pow pw t e = t\<lparr>t_data := map (\<lambda>x. pw x e) (t_data t)\<rparr>"

text \<open>A future of \<^verbatim>\<open>futures_\<close> is the call it was launched with (batch size and
  device). Its \<^verbatim>\<open>sample_\<close> runs when \<^verbatim>\<open>get()\<close> claims the result: the worker may
  take the sampler mutex at any moment between launch and \<^verbatim>\<open>get()\<close>, and this is
  the schedule modelled.\<close>

record 'a PrioritizedReplay =
  alpha_m :: ieee
  beta_m :: ieee
  prefetch_m :: int
  capacity_m :: int
  storage_m :: "'a ConcurrentQueue"
  num_add_m :: int
  sampled_ids_m :: "int list"
  futures_m :: "(int \<times> string) list"
  last_query_m :: int

text \<open>The constructor. \<^verbatim>\<open>1.25 * capacity\<close> is a product of \<^verbatim>\<open>double\<close>, converted by
  \<^verbatim>\<open>int(\<dots>)\<close>; an exception of the store's constructor leaves the constructor. The
  generator seeded by \<open>seed\<close> is not part of the state: the values it returns are an
  argument of \<^verbatim>\<open>sample_\<close>.\<close>

definition PrioritizedReplay ::
  "(int \<Rightarrow> bool) \<Rightarrow> 'a \<Rightarrow> int \<Rightarrow> int \<Rightarrow> ieee \<Rightarrow> ieee \<Rightarrow> int
     \<Rightarrow> error + 'a PrioritizedReplay" where
  "PrioritizedReplay alloc d cap seed alpha beta prefetch =
     (case ConcurrentQueue alloc d
             (int_of_double (fmul binary64 (Num 1.25) (of_int_format binary64 cap))) of
        Inl e \<Rightarrow> Inl e
      | Inr q \<Rightarrow>
          Inr \<lparr>alpha_m = alpha, beta_m = beta, prefetch_m = prefetch, capacity_m = cap,
               storage_m = q, num_add_m = 0, sampled_ids_m = [], futures_m = [],
               last_query_m = 0\<rparr>)"

definition add ::
  "(ieee \<Rightarrow> ieee \<Rightarrow> ieee) \<Rightarrow> 'a PrioritizedReplay \<Rightarrow> 'a list \<Rightarrow> tensor
     \<Rightarrow> error + 'a PrioritizedReplay" where
  "add pw P sample_vec priority =
     (if t_dim priority \<noteq> 1 then Inl AssertionFailure
      else if size0 priority \<noteq> int (length sample_vec) then Inl AssertionFailure
      else
        let weights = tensor_pow pw priority (alpha_m P)
        in case block_append (storage_m P) sample_vec (t_data weights) of
             Inl e \<Rightarrow> Inl e
           | Inr q \<Rightarrow> Inr (P\<lparr>storage_m := q, num_add_m := num_add_m P + size0 priority\<rparr>))"

definition add_one ::
  "(ieee \<Rightarrow> ieee \<Rightarrow> ieee) \<Rightarrow> 'a PrioritizedReplay \<Rightarrow> 'a \<Rightarrow> ieee
     \<Rightarrow> error + 'a PrioritizedReplay" where
  "add_one pw P x priority = add pw P [x] (tensor1 [priority])"

text \<open>\<^verbatim>\<open>add_batch\<close>: the loop over \<^verbatim>\<open>batch.get_vector()\<close>, given as \<open>vecs\<close>.\<close>

fun add_batch_loop ::
  "(ieee \<Rightarrow> ieee \<Rightarrow> ieee) \<Rightarrow> 'a PrioritizedReplay \<Rightarrow> 'a list \<Rightarrow> ieee list \<Rightarrow> nat
     \<Rightarrow> error + 'a PrioritizedReplay" where
  "add_batch_loop pw P [] prio i = Inr P"
| "add_batch_loop pw P (x # xs) prio i =
     (case add_one pw P x (prio ! i) of
        Inl e \<Rightarrow> Inl e
      | Inr P' \<Rightarrow> add_batch_loop pw P' xs prio (Suc i))"

definition add_batch ::
  "(ieee \<Rightarrow> ieee \<Rightarrow> ieee) \<Rightarrow> 'a PrioritizedReplay \<Rightarrow> 'a list \<Rightarrow> tensor
     \<Rightarrow> error + 'a PrioritizedReplay" where
  "add_batch pw P vecs priority =
     (if vecs \<noteq> [] \<and> t_dim priority \<noteq> 1 then Inl LibraryError
      else add_batch_loop pw P vecs (t_data priority) 0)"

subsection \<open>get_new_content\<close>

text \<open>The loop of \<^verbatim>\<open>get_new_content\<close> over \<^verbatim>\<open>cur\<close>; \<open>weights\<close> starts as the
  tensor of ones and entry \<^verbatim>\<open>cur\<close> is overwritten with the stored weight.\<close>

fun drain_loop ::
  "'a ConcurrentQueue \<Rightarrow> nat list \<Rightarrow> 'a list \<Rightarrow> ieee list
     \<Rightarrow> 'a ConcurrentQueue \<times> 'a list \<times> ieee list" where
  "drain_loop q [] samples weights = (q, samples, weights)"
| "drain_loop q (cur # curs) samples weights =
     (case get_element_and_mark q (int cur) of
        (element, q') \<Rightarrow>
          drain_loop q' curs (samples @ [element])
            (weights[cur := fst (get_weight q' (int cur))]))"

definition get_new_content ::
  "('a list \<Rightarrow> 'a) \<Rightarrow> 'a \<Rightarrow> 'a PrioritizedReplay
     \<Rightarrow> error + ((int \<times> 'a \<times> ieee list) \<times> 'a PrioritizedReplay)" where
  "get_new_content pack d P =
     (let sample_size = num_add_m P - last_query_m P
      in if sample_size < 0 then Inl LibraryError
         else
           let weights = replicate (nat sample_size) (Num 1)
           in if sample_size = 0 then Inr ((0, d, weights), P)
              else
                case drain_loop (storage_m P) [0..<nat sample_size] [] weights of
                  (q, samples, weights') \<Rightarrow>
                    (case block_pop q sample_size of
                       Inl e \<Rightarrow> Inl e
                     | Inr q' \<Rightarrow>
                         Inr ((sample_size, pack samples, weights'),
                              P\<lparr>storage_m := q',
                                 last_query_m := last_query_m P + sample_size\<rparr>)))"

subsection \<open>sample_\<close>

text \<open>The locals of the scan that outlive one iteration of its \<^verbatim>\<open>for\<close> loop:
  \<^verbatim>\<open>acc_sum\<close> is a \<^verbatim>\<open>double\<close>, \<^verbatim>\<open>w\<close> a \<^verbatim>\<open>float\<close>. \<open>store\<close> is \<^verbatim>\<open>storage_\<close>,
  whose evicted flags \<^verbatim>\<open>get_element_and_mark\<close> clears.\<close>

record 'a scan_state =
  acc_sum :: ieee
  next_idx :: int
  w_cur :: ieee
  id_cur :: int
  store :: "'a ConcurrentQueue"
  samples :: "'a list"
  weight_acc :: "ieee list"
  ids_acc :: "int list"

text \<open>The inner \<^verbatim>\<open>while (next_idx <= size)\<close>. The result is \<open>(True, \<dots>)\<close> when the loop
  is left by \<^verbatim>\<open>break\<close> and \<open>(False, \<dots>)\<close> when its condition fails, with the locals
  \<^verbatim>\<open>acc_sum\<close>, \<^verbatim>\<open>next_idx\<close>, \<^verbatim>\<open>w\<close> and \<^verbatim>\<open>id\<close>. The test is
  \<^verbatim>\<open>acc_sum > 0 && acc_sum >= rand\<close>, and \<^verbatim>\<open>acc_sum += w\<close> adds in \<^verbatim>\<open>double\<close>.\<close>

function scan_while ::
  "'a ConcurrentQueue \<Rightarrow> int \<Rightarrow> ieee \<Rightarrow> ieee \<Rightarrow> int \<Rightarrow> ieee \<Rightarrow> int
     \<Rightarrow> error + (bool \<times> ieee \<times> int \<times> ieee \<times> int)" where
  "scan_while q sz rnd_i acc nxt w sid =
     (if nxt \<le> sz then
        if fless (Num 0) acc \<and> fle rnd_i acc then
          (if nxt \<ge> 1 then Inr (True, acc, nxt, w, sid) else Inl AssertionFailure)
        else if nxt = sz then Inl AssertionFailure
        else
          case get_weight q nxt of
            (w', sid') \<Rightarrow> scan_while q sz rnd_i (fadd binary64 acc w') (nxt + 1) w' sid'
      else Inr (False, acc, nxt, w, sid))"
  by pat_completeness auto
termination
  by (relation "measure (\<lambda>(q, sz, rnd_i, acc, nxt, w, sid). nat (sz + 1 - nxt))") auto

declare scan_while.simps [simp del]

text \<open>The \<open>i\<close>-th random number of a call: the draw \<^verbatim>\<open>dist(rng_)\<close> shifted into its
  segment by \<^verbatim>\<open>i * segment\<close> and clamped by \<^verbatim>\<open>sum - (float)0.2\<close>, all in
  \<^verbatim>\<open>float\<close>.\<close>

definition rand_of :: "ieee \<Rightarrow> ieee \<Rightarrow> (nat \<Rightarrow> ieee) \<Rightarrow> nat \<Rightarrow> ieee" where
  "rand_of sm segment draw i =
     fmin (fsub binary32 sm float_0_2)
       (fadd binary32 (draw i) (fmul binary32 (of_int_format binary32 (int i)) segment))"

text \<open>The \<^verbatim>\<open>for\<close> loop over \<open>i\<close>.\<close>

fun scan_for ::
  "int \<Rightarrow> ieee \<Rightarrow> ieee \<Rightarrow> (nat \<Rightarrow> ieee) \<Rightarrow> nat list \<Rightarrow> 'a scan_state
     \<Rightarrow> error + 'a scan_state" where
  "scan_for sz sm segment draw [] st = Inr st"
| "scan_for sz sm segment draw (i # js) st =
     (case scan_while (store st) sz (rand_of sm segment draw i)
             (acc_sum st) (next_idx st) (w_cur st) (id_cur st) of
        Inl e \<Rightarrow> Inl e
      | Inr (hit, acc, nxt, w, sid) \<Rightarrow>
          let st1 = st\<lparr>acc_sum := acc, next_idx := nxt, w_cur := w, id_cur := sid\<rparr>
          in if hit then
               (case get_element_and_mark (store st1) (nxt - 1) of
                  (element, q') \<Rightarrow>
                    scan_for sz sm segment draw js
                      (st1\<lparr>store := q', samples := samples st1 @ [element],
                           weight_acc := (weight_acc st1)[i := w],
                           ids_acc := (ids_acc st1)[i := sid]\<rparr>))
             else scan_for sz sm segment draw js st1)"

text \<open>The three tensor statements after the lock is released: \<^verbatim>\<open>weights / sum\<close>,
  \<^verbatim>\<open>torch::pow(size * weights, -beta_)\<close> and \<^verbatim>\<open>weights /= weights.max()\<close>. The maximum
  of a tensor is a NaN as soon as one entry is.\<close>

definition div_scalar :: "ieee list \<Rightarrow> ieee \<Rightarrow> ieee list" where
  "div_scalar ws sm = map (\<lambda>w. fdiv binary32 w sm) ws"

definition scale_pow ::
  "(ieee \<Rightarrow> ieee \<Rightarrow> ieee) \<Rightarrow> int \<Rightarrow> ieee \<Rightarrow> ieee list \<Rightarrow> ieee list" where
  "scale_pow pw sz beta ws =
     map (\<lambda>w. pw (fmul binary32 (of_int_format binary32 sz) w) (fneg beta)) ws"

definition tensor_max :: "ieee list \<Rightarrow> ieee" where
  "tensor_max ws =
     (if NaN \<in> set ws then NaN
      else fold (\<lambda>x m. if fless m x then x else m) (tl ws) (hd ws))"

definition div_max :: "ieee list \<Rightarrow> ieee list" where
  "div_max ws = map (\<lambda>w. fdiv binary32 w (tensor_max ws)) ws"

text \<open>The locals before the first iteration, and the scan after its first \<open>k\<close>
  iterations.\<close>

definition scan_init :: "'a PrioritizedReplay \<Rightarrow> int \<Rightarrow> 'a scan_state" where
  "scan_init P batchsize =
     \<lparr>acc_sum = Num 0, next_idx = 0, w_cur = Num 0, id_cur = 0,
      store = storage_m P, samples = [],
      weight_acc = replicate (nat batchsize) (Num 0),
      ids_acc = replicate (nat batchsize) 0\<rparr>"

definition scan_upto ::
  "'a PrioritizedReplay \<Rightarrow> int \<Rightarrow> (nat \<Rightarrow> ieee) \<Rightarrow> nat \<Rightarrow> error + 'a scan_state" where
  "scan_upto P batchsize draw k =
     (case safe_size (storage_m P) of
        (sz, sm) \<Rightarrow>
          scan_for sz sm (fdiv binary32 sm (of_int_format binary32 batchsize)) draw [0..<k]
            (scan_init P batchsize))"

text \<open>The scan of \<^verbatim>\<open>sample_\<close>, up to the assertion on the number of samples.\<close>

definition sample_scan ::
  "'a PrioritizedReplay \<Rightarrow> int \<Rightarrow> (nat \<Rightarrow> ieee) \<Rightarrow> error + 'a scan_state" where
  "sample_scan P batchsize draw =
     (if batchsize < 0 then Inl LibraryError
      else
        case scan_upto P batchsize draw (nat batchsize) of
          Inl e \<Rightarrow> Inl e
        | Inr st \<Rightarrow>
            if int (length (samples st)) \<noteq> batchsize then Inl AssertionFailure
            else Inr st)"

text \<open>The value of the local \<^verbatim>\<open>size\<close> after it is read again from \<^verbatim>\<open>storage_.size()\<close>,
  and the value of \<^verbatim>\<open>weights\<close> after \<^verbatim>\<open>torch::pow(size * weights, -beta_)\<close>.\<close>

definition sample_size_reread :: "'a scan_state \<Rightarrow> int" where
  "sample_size_reread st = size_queue (store st)"

definition sample_scaled ::
  "(ieee \<Rightarrow> ieee \<Rightarrow> ieee) \<Rightarrow> 'a PrioritizedReplay \<Rightarrow> 'a scan_state \<Rightarrow> ieee list" where
  "sample_scaled pw P st =
     scale_pow pw (sample_size_reread st) (beta_m P)
       (div_scalar (weight_acc st) (snd (safe_size (storage_m P))))"

text \<open>\<^verbatim>\<open>sample_\<close>. An exception of the tensor library ends the call: for a negative
  batch size, for the maximum of an empty tensor, and, when the device is not
  \<^verbatim>\<open>"cpu"\<close>, for a device string that names no usable device (\<open>device_ok\<close> tells
  which do). The transfer to a usable device does not change the weights.\<close>

definition sample_m ::
  "(ieee \<Rightarrow> ieee \<Rightarrow> ieee) \<Rightarrow> ('a list \<Rightarrow> 'a) \<Rightarrow> (string \<Rightarrow> bool) \<Rightarrow> 'a PrioritizedReplay
     \<Rightarrow> int \<Rightarrow> string \<Rightarrow> (nat \<Rightarrow> ieee)
     \<Rightarrow> error + (('a \<times> ieee list \<times> int list) \<times> 'a PrioritizedReplay)" where
  "sample_m pw pack device_ok P batchsize device draw =
     (case sample_scan P batchsize draw of
        Inl e \<Rightarrow> Inl e
      | Inr st \<Rightarrow>
          let sz = sample_size_reread st
          in (case (if sz > capacity_m P then block_pop (store st) (sz - capacity_m P)
                    else Inr (store st)) of
                Inl e \<Rightarrow> Inl e
              | Inr q' \<Rightarrow>
                  if weight_acc st = [] then Inl LibraryError
                  else if device \<noteq> ''cpu'' \<and> \<not> device_ok device then Inl LibraryError
                  else Inr ((pack (samples st), div_max (sample_scaled pw P st), ids_acc st),
                            P\<lparr>storage_m := q'\<rparr>)))"

subsection \<open>sample, update_priority, keep_priority and the observers\<close>

definition sample ::
  "(ieee \<Rightarrow> ieee \<Rightarrow> ieee) \<Rightarrow> ('a list \<Rightarrow> 'a) \<Rightarrow> (string \<Rightarrow> bool) \<Rightarrow> 'a PrioritizedReplay
     \<Rightarrow> int \<Rightarrow> string \<Rightarrow> (nat \<Rightarrow> ieee)
     \<Rightarrow> error + (('a \<times> ieee list) \<times> 'a PrioritizedReplay)" where
  "sample pw pack device_ok P batchsize device draw =
     (if sampled_ids_m P \<noteq> [] then Inl AssertionFailure
      else if prefetch_m P = 0 then
        (case sample_m pw pack device_ok P batchsize device draw of
           Inl e \<Rightarrow> Inl e
         | Inr ((batch, priority, ids), P') \<Rightarrow>
             Inr ((batch, priority), P'\<lparr>sampled_ids_m := ids\<rparr>))
      else
        case (if futures_m P = [] then sample_m pw pack device_ok P batchsize device draw
              else sample_m pw pack device_ok (P\<lparr>futures_m := tl (futures_m P)\<rparr>)
                     (fst (hd (futures_m P))) (snd (hd (futures_m P))) draw) of
          Inl e \<Rightarrow> Inl e
        | Inr ((batch, priority, ids), P') \<Rightarrow>
            Inr ((batch, priority),
                 P'\<lparr>sampled_ids_m := ids,
                    futures_m := futures_m P' @
                      replicate (nat (prefetch_m P' - int (length (futures_m P'))))
                        (batchsize, device)\<rparr>))"

definition update_priority ::
  "(ieee \<Rightarrow> ieee \<Rightarrow> ieee) \<Rightarrow> 'a PrioritizedReplay \<Rightarrow> tensor \<Rightarrow> error + 'a PrioritizedReplay" where
  "update_priority pw P priority =
     (if t_dim priority \<noteq> 1 then Inl AssertionFailure
      else if int (length (sampled_ids_m P)) \<noteq> size0 priority then Inl AssertionFailure
      else
        let weights = tensor_pow pw priority (alpha_m P)
        in Inr (P\<lparr>storage_m := update (storage_m P) (sampled_ids_m P) (t_data weights),
                  sampled_ids_m := []\<rparr>))"

definition keep_priority :: "'a PrioritizedReplay \<Rightarrow> 'a PrioritizedReplay" where
  "keep_priority P = P\<lparr>sampled_ids_m := []\<rparr>"

text \<open>\<^verbatim>\<open>PrioritizedReplay::size()\<close> calls \<^verbatim>\<open>storage_.safe_size(nullptr)\<close>.\<close>

definition size_replay :: "'a PrioritizedReplay \<Rightarrow> int" where
  "size_replay P = fst (safe_size (storage_m P))"

definition num_add :: "'a PrioritizedReplay \<Rightarrow> int" where
  "num_add P = num_add_m P"

section \<open>Notions used to state the properties\<close>

text \<open>The physical slot of the logical offset \<open>k\<close> from the head; the value of
  \<^verbatim>\<open>acc_sum\<close> after the scan has added the weights of the first \<open>m\<close> offsets (in
  \<^verbatim>\<open>double\<close>, in that order); the test of the scan on that value; and the first number
  of scanned slots at which the test holds, among \<open>0, \<dots>, sz\<close> and among
  \<open>c, \<dots>, sz\<close>.\<close>

definition slot_of :: "'a ConcurrentQueue \<Rightarrow> nat \<Rightarrow> nat" where
  "slot_of q k = nat ((head_m q + int k) mod capacity q)"

definition prefix_sum :: "'a ConcurrentQueue \<Rightarrow> nat \<Rightarrow> ieee" where
  "prefix_sum q m = fold (\<lambda>k a. fadd binary64 a (weights_m q ! slot_of q k)) [0..<m] (Num 0)"

definition crossing :: "'a ConcurrentQueue \<Rightarrow> ieee \<Rightarrow> nat \<Rightarrow> bool" where
  "crossing q r m \<longleftrightarrow> fless (Num 0) (prefix_sum q m) \<and> fle r (prefix_sum q m)"


definition first_crossing_from ::
  "'a ConcurrentQueue \<Rightarrow> int \<Rightarrow> ieee \<Rightarrow> nat \<Rightarrow> nat option" where
  "first_crossing_from q sz r c = List.find (crossing q r) [c..<Suc (nat sz)]"

text \<open>The value of \<^verbatim>\<open>diff\<close> when the loop of \<^verbatim>\<open>block_pop\<close> has passed the first \<open>n\<close>
  offsets.\<close>

definition pop_diff :: "'a ConcurrentQueue \<Rightarrow> nat \<Rightarrow> ieee" where
  "pop_diff q n = fold (\<lambda>k d. fsub binary64 d (weights_m q ! slot_of q k)) [0..<n] (Num 0)"



text \<open>The sum read by \<^verbatim>\<open>safe_size(&sum)\<close> at the start of \<^verbatim>\<open>sample_\<close>, and the
  \<open>i\<close>-th random number of a call with batch size \<open>b\<close>.\<close>

definition sum_snapshot :: "'a PrioritizedReplay \<Rightarrow> ieee" where
  "sum_snapshot P = snd (safe_size (storage_m P))"



text \<open>What the locals of the scan satisfy between two iterations of its \<^verbatim>\<open>for\<close>
  loop, relative to the store \<open>q\<close> the scan started on; and the locals after an
  iteration that selects the slot at offset \<open>m - 1\<close>.\<close>

definition scan_inv :: "'a ConcurrentQueue \<Rightarrow> int \<Rightarrow> 'a scan_state \<Rightarrow> bool" where
  "scan_inv q sz st \<longleftrightarrow>
     store st = q\<lparr>evicted_m := evicted_m (store st)\<rparr> \<and>
     0 \<le> next_idx st \<and> next_idx st \<le> sz \<and>
     acc_sum st = prefix_sum q (nat (next_idx st)) \<and>
     (1 \<le> next_idx st \<longrightarrow>
        w_cur st = weights_m q ! slot_of q (nat (next_idx st) - 1) \<and>
        id_cur st = int (slot_of q (nat (next_idx st) - 1)))"

definition scan_hit :: "'a ConcurrentQueue \<Rightarrow> 'a scan_state \<Rightarrow> nat \<Rightarrow> nat \<Rightarrow> 'a scan_state" where
  "scan_hit q st i m =
     st\<lparr>acc_sum := prefix_sum q m, next_idx := int m,
        w_cur := weights_m q ! slot_of q (m - 1), id_cur := int (slot_of q (m - 1)),
        store := (store st)\<lparr>evicted_m := (evicted_m (store st))[slot_of q (m - 1) := False]\<rparr>,
        samples := samples st @ [elements_m q ! slot_of q (m - 1)],
        weight_acc := (weight_acc st)[i := weights_m q ! slot_of q (m - 1)],
        ids_acc := (ids_acc st)[i := int (slot_of q (m - 1))]\<rparr>"

text \<open>The first \<open>n\<close> records from the head and their weights; a sequence of \<^verbatim>\<open>add\<close>
  calls; and a buffer whose store has nothing committed and whose \<^verbatim>\<open>last_query_\<close> has
  caught up with \<^verbatim>\<open>num_add_\<close>.\<close>

definition contents_of :: "'a ConcurrentQueue \<Rightarrow> nat \<Rightarrow> 'a list" where
  "contents_of q n = map (\<lambda>k. elements_m q ! slot_of q k) [0..<n]"

definition stored_weights :: "'a ConcurrentQueue \<Rightarrow> nat \<Rightarrow> ieee list" where
  "stored_weights q n = map (\<lambda>k. weights_m q ! slot_of q k) [0..<n]"

fun add_all ::
  "(ieee \<Rightarrow> ieee \<Rightarrow> ieee) \<Rightarrow> 'a PrioritizedReplay \<Rightarrow> ('a list \<times> tensor) list
     \<Rightarrow> error + 'a PrioritizedReplay" where
  "add_all pw P [] = Inr P"
| "add_all pw P (call # calls) =
     (case add pw P (fst call) (snd call) of
        Inl e \<Rightarrow> Inl e
      | Inr P1 \<Rightarrow> add_all pw P1 calls)"

definition drained :: "'a PrioritizedReplay \<Rightarrow> bool" where
  "drained P \<longleftrightarrow>
     store_inv (storage_m P) [] \<and> safe_size_m (storage_m P) = 0 \<and>
     num_add_m P = last_query_m P"

section \<open>Example states\<close>

text \<open>Concrete stores and replay buffers on which the theorems are instantiated. The
  power used in the examples is taken at the exponents 1 and 0 only, where
  \<^verbatim>\<open>torch::pow\<close> copies the base and fills with ones; elsewhere it is the rounded
  real power.\<close>

definition ex_pow :: "ieee \<Rightarrow> ieee \<Rightarrow> ieee" where
  "ex_pow x e =
     (if e = Num 1 then x else if e = Num 0 then Num 1 else rnd binary32 (val x powr val e))"

definition ex_empty :: "int \<Rightarrow> nat ConcurrentQueue" where
  "ex_empty cap = \<lparr>capacity = cap, head_m = 0, tail_m = 0, size_m = 0, safe_tail_m = 0,
      safe_size_m = 0, sum_m = Num 0, evicted_m = replicate (nat cap) False,
      elements_m = replicate (nat cap) 0, weights_m = replicate (nat cap) (Num 0)\<rparr>"

definition ex_store1 :: "nat ConcurrentQueue" where
  "ex_store1 = \<lparr>capacity = 5, head_m = 0, tail_m = 2, size_m = 2, safe_tail_m = 2,
      safe_size_m = 2, sum_m = Num 4, evicted_m = [False, False, False, False, False],
      elements_m = [10, 11, 0, 0, 0], weights_m = [Num 1, Num 3, Num 0, Num 0, Num 0]\<rparr>"

definition ex_store2 :: "nat ConcurrentQueue" where
  "ex_store2 = ex_store1\<lparr>tail_m := 3, size_m := 3\<rparr>"

definition ex_pending :: "nat pending" where
  "ex_pending = \<lparr>p_start = 2, p_fin = 3, p_block = [12], p_weights = [Num 5]\<rparr>"

definition ex_replay1 :: "nat PrioritizedReplay" where
  "ex_replay1 = \<lparr>alpha_m = Num 1, beta_m = Num (- 1), prefetch_m = 0, capacity_m = 4,
      storage_m = ex_store1, num_add_m = 2, sampled_ids_m = [], futures_m = [],
      last_query_m = 0\<rparr>"

definition ex_replay2 :: "nat PrioritizedReplay" where
  "ex_replay2 = ex_replay1\<lparr>storage_m := ex_store2\<rparr>"

definition ex_full :: "nat ConcurrentQueue" where
  "ex_full = \<lparr>capacity = 2, head_m = 0, tail_m = 0, size_m = 2, safe_tail_m = 0,
      safe_size_m = 2, sum_m = Num 2, evicted_m = [False, False],
      elements_m = [10, 11], weights_m = [Num 1, Num 1]\<rparr>"

definition ex_new :: "int \<Rightarrow> int \<Rightarrow> nat PrioritizedReplay" where
  "ex_new nominal physical = \<lparr>alpha_m = Num 1, beta_m = Num (- 1), prefetch_m = 0,
      capacity_m = nominal, storage_m = ex_empty physical, num_add_m = 0,
      sampled_ids_m = [], futures_m = [], last_query_m = 0\<rparr>"

definition ex_scan1 :: "nat scan_state" where
  "ex_scan1 = \<lparr>acc_sum = Num 4, next_idx = 2, w_cur = Num 3, id_cur = 1, store = ex_store1,
      samples = [10, 11], weight_acc = [Num 1, Num 3], ids_acc = [0, 1]\<rparr>"

definition ex_scan2 :: "nat scan_state" where
  "ex_scan2 = ex_scan1\<lparr>store := ex_store2\<rparr>"

definition ex_store5 :: "nat ConcurrentQueue" where
  "ex_store5 = \<lparr>capacity = 5, head_m = 0, tail_m = 0, size_m = 5, safe_tail_m = 0,
      safe_size_m = 5, sum_m = Num 5, evicted_m = [False, False, False, False, False],
      elements_m = [10, 11, 12, 13, 14],
      weights_m = [Num 1, Num 1, Num 1, Num 1, Num 1]\<rparr>"

definition ex_replay5 :: "nat PrioritizedReplay" where
  "ex_replay5 = \<lparr>alpha_m = Num 1, beta_m = Num (- 1), prefetch_m = 0, capacity_m = 4,
      storage_m = ex_store5, num_add_m = 5, sampled_ids_m = [], futures_m = [],
      last_query_m = 0\<rparr>"

definition ex_store5_popped :: "nat ConcurrentQueue" where
  "ex_store5_popped = ex_store5\<lparr>evicted_m := [True, False, False, False, False],
      sum_m := Num 4, head_m := 1, safe_size_m := 4, size_m := 4\<rparr>"

definition ex_store8 :: "nat ConcurrentQueue" where
  "ex_store8 = \<lparr>capacity = 10, head_m = 0, tail_m = 1, size_m = 1, safe_tail_m = 1,
      safe_size_m = 1, sum_m = Num 1, evicted_m = replicate 10 False,
      elements_m = 10 # replicate 9 0, weights_m = Num 1 # replicate 9 (Num 0)\<rparr>"

definition ex_store8_reserved :: "nat ConcurrentQueue" where
  "ex_store8_reserved = ex_store8\<lparr>tail_m := 0, size_m := 10\<rparr>"

definition ex_pending9 :: "nat pending" where
  "ex_pending9 = \<lparr>p_start = 1, p_fin = 0, p_block = [11, 12, 13, 14, 15, 16, 17, 18, 19],
      p_weights = replicate 9 (Num 1)\<rparr>"

definition ex_replay8 :: "nat PrioritizedReplay" where
  "ex_replay8 = \<lparr>alpha_m = Num 1, beta_m = Num (- 1), prefetch_m = 0, capacity_m = 8,
      storage_m = ex_store8_reserved, num_add_m = 1, sampled_ids_m = [], futures_m = [],
      last_query_m = 0\<rparr>"

definition ex_scan8 :: "nat scan_state" where
  "ex_scan8 = \<lparr>acc_sum = Num 1, next_idx = 1, w_cur = Num 1, id_cur = 0,
      store = ex_store8_reserved, samples = [10], weight_acc = [Num 1], ids_acc = [0]\<rparr>"

definition ex_sampled :: "nat PrioritizedReplay" where
  "ex_sampled = ex_replay1\<lparr>sampled_ids_m := [0, 1]\<rparr>"

definition ex_store6 :: "nat ConcurrentQueue" where
  "ex_store6 = \<lparr>capacity = 5, head_m = 0, tail_m = 2, size_m = 2, safe_tail_m = 2,
      safe_size_m = 2, sum_m = Num 6, evicted_m = [False, False, False, False, False],
      elements_m = [10, 11, 0, 0, 0], weights_m = [Num 1, Num 5, Num 0, Num 0, Num 0]\<rparr>"

definition ex_store6_reserved :: "nat ConcurrentQueue" where
  "ex_store6_reserved = ex_store6\<lparr>tail_m := 3, size_m := 3\<rparr>"

definition ex_replay6 :: "nat PrioritizedReplay" where
  "ex_replay6 = \<lparr>alpha_m = Num 1, beta_m = Num (- 1), prefetch_m = 0, capacity_m = 4,
      storage_m = ex_store6_reserved, num_add_m = 2, sampled_ids_m = [], futures_m = [],
      last_query_m = 0\<rparr>"

definition ex_store_small :: "nat ConcurrentQueue" where
  "ex_store_small = \<lparr>capacity = 5, head_m = 0, tail_m = 2, size_m = 2, safe_tail_m = 2,
      safe_size_m = 2, sum_m = Num (13421773 / 67108864),
      evicted_m = [False, False, False, False, False],
      elements_m = [10, 11, 0, 0, 0],
      weights_m = [Num (9007199 / 9007199254740992), Num (13421773 / 67108864),
                   Num 0, Num 0, Num 0]\<rparr>"

definition ex_replay_small :: "nat PrioritizedReplay" where
  "ex_replay_small = \<lparr>alpha_m = Num 1, beta_m = Num (- 1), prefetch_m = 0, capacity_m = 4,
      storage_m = ex_store_small, num_add_m = 2, sampled_ids_m = [], futures_m = [],
      last_query_m = 0\<rparr>"



definition ex_drained1 :: "nat PrioritizedReplay" where
  "ex_drained1 = ex_replay1\<lparr>storage_m := ex_store1\<lparr>evicted_m := [True, True, False, False, False],
        sum_m := Num 0, head_m := 2, safe_size_m := 0, size_m := 0\<rparr>,
      last_query_m := 2\<rparr>"


section \<open>Facts about the floating-point operations\<close>

lemma ilog2_bounds:
  assumes "x \<noteq> 0"
  shows "2 powi (ilog2 x) \<le> \<bar>x\<bar>" and "\<bar>x\<bar> < 2 powi (ilog2 x + 1)"
proof -
  define a where "a = \<bar>x\<bar>"
  from assms have a: "0 < a" by (simp add: a_def)
  have "2 powi (ilog2 x) \<le> a \<and> a < 2 powi (ilog2 x + 1)"
  proof (cases "1 \<le> a")
    case True
    define n where "n = \<lfloor>a\<rfloor>"
    from True have n: "0 < n" by (simp add: n_def)
    have e: "ilog2 x = bitlen n - 1" using True by (simp add: ilog2_def a_def n_def)
    from bitlen_bounds[OF n] have b: "2 ^ nat (bitlen n - 1) \<le> n" "n < 2 ^ nat (bitlen n)"
      by simp_all
    from n have k: "1 \<le> bitlen n" by (simp add: bitlen_alt_def)
    have "(2::real) powi (bitlen n - 1) = 2 ^ nat (bitlen n - 1)"
      using k by (simp add: power_int_def)
    also have "\<dots> = real_of_int (2 ^ nat (bitlen n - 1))" by simp
    also have "\<dots> \<le> real_of_int n" using b(1) by (simp only: of_int_le_iff)
    also have "\<dots> \<le> a" by (simp add: n_def)
    finally have lo: "2 powi (bitlen n - 1) \<le> a" .
    from b(2) have "n + 1 \<le> 2 ^ nat (bitlen n)" by simp
    then have "real_of_int (n + 1) \<le> real_of_int (2 ^ nat (bitlen n))"
      by (simp only: of_int_le_iff)
    moreover have "a < real_of_int (n + 1)" by (simp add: n_def)
    ultimately have "a < 2 ^ nat (bitlen n)" by simp
    moreover have "(2::real) powi (bitlen n - 1 + 1) = 2 ^ nat (bitlen n)"
      using k by (simp add: power_int_def)
    ultimately show ?thesis using lo e by simp
  next
    case False
    define y where "y = 1 / a"
    from False a have y: "1 < y" by (simp add: y_def)
    define n where "n = \<lceil>y\<rceil> - 1"
    from y have n: "0 < n" unfolding n_def by linarith
    have e: "ilog2 x = - bitlen n" using False by (simp add: ilog2_def a_def n_def y_def)
    from bitlen_bounds[OF n] have b: "2 ^ nat (bitlen n - 1) \<le> n" "n < 2 ^ nat (bitlen n)"
      by simp_all
    from n have k: "1 \<le> bitlen n" by (simp add: bitlen_alt_def)
    from b(2) have "n + 1 \<le> 2 ^ nat (bitlen n)" by simp
    then have "real_of_int (n + 1) \<le> real_of_int (2 ^ nat (bitlen n))"
      by (simp only: of_int_le_iff)
    moreover have "y \<le> real_of_int (n + 1)" unfolding n_def by simp
    ultimately have yu: "y \<le> 2 ^ nat (bitlen n)" by simp
    have "real_of_int (2 ^ nat (bitlen n - 1)) \<le> real_of_int n"
      using b(1) by (simp only: of_int_le_iff)
    moreover have "real_of_int n < y" unfolding n_def by linarith
    moreover have "real_of_int (2 ^ nat (bitlen n - 1)) = 2 ^ nat (bitlen n - 1)" by simp
    ultimately have yl: "2 ^ nat (bitlen n - 1) < y" by linarith
    have p1: "(2::real) powi (- bitlen n) = 1 / 2 ^ nat (bitlen n)"
      using k by (simp add: power_int_def field_simps)
    have p2: "(2::real) powi (- bitlen n + 1) = 1 / 2 ^ nat (bitlen n - 1)"
      using k by (simp add: power_int_def field_simps)
    have ay: "a = 1 / y" using a by (simp add: y_def)
    from yu y have "1 / 2 ^ nat (bitlen n) \<le> 1 / y"
      by (intro divide_left_mono) simp_all
    moreover from yl y have "1 / y < 1 / 2 ^ nat (bitlen n - 1)"
      by (intro divide_strict_left_mono) simp_all
    ultimately show ?thesis unfolding e p1 p2 ay by simp
  qed
  then show "2 powi (ilog2 x) \<le> \<bar>x\<bar>" and "\<bar>x\<bar> < 2 powi (ilog2 x + 1)"
    by (simp_all add: a_def)
qed

lemma round_even_of_int [simp]: "round_even (of_int k) = k"
  by (simp add: round_even_def)

lemma round_even_0 [simp]: "round_even 0 = 0"
  using round_even_of_int[of 0] by simp

lemma round_even_bounds: "\<lfloor>x\<rfloor> \<le> round_even x" "round_even x \<le> \<lceil>x\<rceil>"
proof -
  show "\<lfloor>x\<rfloor> \<le> round_even x" by (simp add: round_even_def Let_def)
  show "round_even x \<le> \<lceil>x\<rceil>"
  proof (cases "x = of_int \<lfloor>x\<rfloor>")
    case True
    then have "round_even x = round_even (of_int \<lfloor>x\<rfloor>)" by simp
    also have "\<dots> = \<lfloor>x\<rfloor>" by (rule round_even_of_int)
    finally show ?thesis by (simp add: floor_le_ceiling)
  next
    case False
    then have "\<lceil>x\<rceil> = \<lfloor>x\<rfloor> + 1" by (simp add: ceiling_altdef)
    then show ?thesis by (simp add: round_even_def Let_def)
  qed
qed

text \<open>A number \<open>k \<sqdot> 2\<^sup>q\<close> whose significand \<open>k\<close> fits the precision, on or above the
  grid of the subnormal numbers, is not changed by rounding.\<close>

lemma round_real_exact:
  assumes k: "\<bar>k\<bar> < 2 ^ p" and q: "emin - (int p - 1) \<le> q"
  shows "round_real (p, emin, emax) (of_int k * 2 powi q) = of_int k * 2 powi q"
proof (cases "k = 0")
  case True
  then show ?thesis by (simp add: round_real_def)
next
  case False
  define x :: real where "x = of_int k * 2 powi q"
  from False have x0: "x \<noteq> 0" by (simp add: x_def)
  define Q where "Q = max (ilog2 x) emin - (int p - 1)"
  have "\<bar>x\<bar> = of_int \<bar>k\<bar> * 2 powi q" by (simp add: x_def abs_mult)
  also have "\<dots> < 2 ^ p * 2 powi q"
  proof -
    from k have "real_of_int \<bar>k\<bar> < real_of_int (2 ^ p)" by (simp only: of_int_less_iff)
    then show ?thesis by simp
  qed
  also have "\<dots> = 2 powi (int p + q)" by (simp add: power_int_add)
  finally have ub: "\<bar>x\<bar> < 2 powi (int p + q)" .
  have "ilog2 x < int p + q"
  proof (rule ccontr)
    assume "\<not> ilog2 x < int p + q"
    then have "(2::real) powi (int p + q) \<le> 2 powi ilog2 x"
      by (intro power_int_increasing) simp_all
    with ilog2_bounds(1)[OF x0] ub show False by simp
  qed
  with q have Qq: "Q \<le> q" by (simp add: Q_def)
  have "x / 2 powi Q = of_int k * 2 powi (q - Q)"
    by (simp add: x_def power_int_diff)
  also have "\<dots> = of_int (k * 2 ^ nat (q - Q))"
    using Qq by (simp add: power_int_def)
  finally have "round_even (x / 2 powi Q) = k * 2 ^ nat (q - Q)"
    by (simp only: round_even_of_int)
  then have "of_int (round_even (x / 2 powi Q)) * 2 powi Q = of_int k * 2 powi (q - Q) * 2 powi Q"
    using Qq by (simp add: power_int_def)
  also have "\<dots> = x" by (simp add: x_def power_int_diff)
  finally show ?thesis by (simp add: round_real_def Q_def x_def Let_def)
qed

lemma rnd_exact:
  assumes "\<bar>k\<bar> < 2 ^ p" and "emin - (int p - 1) \<le> q"
    and "\<bar>of_int k * 2 powi q\<bar> \<le> largest (p, emin, emax)"
  shows "rnd (p, emin, emax) (of_int k * 2 powi q) = Num (of_int k * 2 powi q)"
proof -
  have "round_real (p, emin, emax) (of_int k * 2 powi q) = of_int k * 2 powi q"
    using assms(1,2) by (rule round_real_exact)
  with assms(3) show ?thesis by (auto simp: rnd_def Let_def)
qed






lemma rnd_not_NaN [simp]: "rnd f x \<noteq> NaN"
  by (simp add: rnd_def Let_def)

text \<open>The order of the comparisons.\<close>

lemma fless_imp_fle: "fless a b \<Longrightarrow> fle a b"
  by (cases a; cases b) (auto simp: fless_def fle_def is_inf_def)

lemma fle_trans: "fle a b \<Longrightarrow> fle b c \<Longrightarrow> fle a c"
  by (cases a; cases b; cases c) (auto simp: fle_def is_inf_def)

lemma fle_fless_trans: "fle a b \<Longrightarrow> fless b c \<Longrightarrow> fless a c"
  by (cases a; cases b; cases c) (auto simp: fle_def fless_def is_inf_def)


lemma not_fle_imp_fless: "a \<noteq> NaN \<Longrightarrow> b \<noteq> NaN \<Longrightarrow> \<not> fle a b \<Longrightarrow> fless b a"
  by (cases a; cases b) (auto simp: fle_def fless_def is_inf_def)

lemma fless_not_NaN: "fless a b \<Longrightarrow> a \<noteq> NaN \<and> b \<noteq> NaN"
  by (simp add: fless_def)

lemma fle_not_NaN: "fle a b \<Longrightarrow> a \<noteq> NaN \<and> b \<noteq> NaN"
  by (simp add: fle_def)

lemma fmin_cases: "fmin a b = a \<or> (fmin a b = b \<and> fless b a)"
  by (simp add: fmin_def)

lemma fle_fmin:
  assumes "fle a c"
  shows "fle (fmin a b) c"
  using fmin_cases[of a b] assms fless_imp_fle fle_trans by metis

text \<open>Evaluation on concrete numbers. The bundle \<open>ieee_eval\<close> unfolds the operations down
  to the arithmetic of rationals; \<open>num_eval\<close> computes on finite numbers and knows that
  an integer with a short significand is not changed by rounding.\<close>

lemmas ieee_eval =
  fadd_def fsub_def fmul_def fdiv_def fless_def fle_def fmin_def to_format_def
  of_int_format_def is_inf_def is_zero_def signed_zero_def signed_inf_def
  rnd_def round_real_def largest_def binary32_def binary64_def ilog2_def round_even_def
  compute_bitlen Let_def

lemma fadd_Num: "fadd f (Num a) (Num b) = (if a + b = 0 then Num 0 else rnd f (a + b))"
  by (simp add: fadd_def is_inf_def)

lemma fsub_Num: "fsub f (Num a) (Num b) = (if a - b = 0 then Num 0 else rnd f (a - b))"
  by (simp add: fsub_def fadd_def is_inf_def)

lemma fmul_Num:
  "fmul f (Num a) (Num b) =
     (if a * b = 0 then signed_zero ((a < 0) \<noteq> (b < 0)) else rnd f (a * b))"
  by (auto simp: fmul_def is_inf_def is_zero_def)

lemma fdiv_Num:
  "b \<noteq> 0 \<Longrightarrow> fdiv f (Num a) (Num b) = (if a = 0 then signed_zero (b < 0) else rnd f (a / b))"
  by (simp add: fdiv_def is_inf_def is_zero_def)

lemma fless_Num: "fless (Num a) (Num b) \<longleftrightarrow> a < b"
  by (simp add: fless_def)

lemma fle_Num: "fle (Num a) (Num b) \<longleftrightarrow> a \<le> b"
  by (simp add: fle_def is_inf_def)

lemma to_format_Num: "to_format f (Num r) = rnd f r"
  by (simp add: to_format_def)

lemma largest_binary32_ge: "x \<le> 2 ^ 24 - 1 \<Longrightarrow> x \<le> largest binary32"
proof -
  assume x: "x \<le> 2 ^ 24 - 1"
  have "(1::real) \<le> 2 powi 104" by (rule one_le_power_int) simp_all
  then have "(2 ^ 24 - 1) * (1::real) \<le> (2 ^ 24 - 1) * 2 powi 104"
    by (intro mult_left_mono) simp_all
  with x show ?thesis by (simp add: largest_def binary32_def)
qed

lemma largest_binary64_ge: "x \<le> 2 ^ 53 - 1 \<Longrightarrow> x \<le> largest binary64"
proof -
  assume x: "x \<le> 2 ^ 53 - 1"
  have "(1::real) \<le> 2 powi 971" by (rule one_le_power_int) simp_all
  then have "(2 ^ 53 - 1) * (1::real) \<le> (2 ^ 53 - 1) * 2 powi 971"
    by (intro mult_left_mono) simp_all
  with x show ?thesis by (simp add: largest_def binary64_def)
qed

lemma rnd_int_binary32:
  assumes "\<bar>k\<bar> < 16777216"
  shows "rnd binary32 (of_int k) = Num (of_int k)"
proof -
  from assms have k: "\<bar>k\<bar> < 2 ^ 24" by simp
  from assms have "\<bar>real_of_int k\<bar> \<le> 2 ^ 24 - 1" by simp
  then have "\<bar>real_of_int k * 2 powi 0\<bar> \<le> largest (24, - 126, 127)"
    using largest_binary32_ge[of "\<bar>real_of_int k\<bar>"] by (simp add: binary32_def)
  with k have "rnd (24, - 126, 127) (of_int k * 2 powi 0) = Num (of_int k * 2 powi 0)"
    by (intro rnd_exact) simp_all
  then show ?thesis by (simp add: binary32_def)
qed

lemma rnd_int_binary64:
  assumes "\<bar>k\<bar> < 9007199254740992"
  shows "rnd binary64 (of_int k) = Num (of_int k)"
proof -
  from assms have k: "\<bar>k\<bar> < 2 ^ 53" by simp
  from assms have "\<bar>real_of_int k\<bar> \<le> 2 ^ 53 - 1" by simp
  then have "\<bar>real_of_int k * 2 powi 0\<bar> \<le> largest (53, - 1022, 1023)"
    using largest_binary64_ge[of "\<bar>real_of_int k\<bar>"] by (simp add: binary64_def)
  with k have "rnd (53, - 1022, 1023) (of_int k * 2 powi 0) = Num (of_int k * 2 powi 0)"
    by (intro rnd_exact) simp_all
  then show ?thesis by (simp add: binary64_def)
qed

lemma rnd_numeral_binary32:
  "(numeral n :: int) < 16777216 \<Longrightarrow> rnd binary32 (numeral n) = Num (numeral n)"
  "(numeral n :: int) < 16777216 \<Longrightarrow> rnd binary32 (- numeral n) = Num (- numeral n)"
  "rnd binary32 1 = Num 1" "rnd binary32 0 = Num 0" "rnd binary32 (- 1) = Num (- 1)"
  using rnd_int_binary32[of "numeral n"] rnd_int_binary32[of "- numeral n"]
    rnd_int_binary32[of 1] rnd_int_binary32[of 0] rnd_int_binary32[of "- 1"]
  by simp_all

lemma rnd_numeral_binary64:
  "(numeral n :: int) < 9007199254740992 \<Longrightarrow> rnd binary64 (numeral n) = Num (numeral n)"
  "(numeral n :: int) < 9007199254740992 \<Longrightarrow> rnd binary64 (- numeral n) = Num (- numeral n)"
  "rnd binary64 1 = Num 1" "rnd binary64 0 = Num 0" "rnd binary64 (- 1) = Num (- 1)"
  using rnd_int_binary64[of "numeral n"] rnd_int_binary64[of "- numeral n"]
    rnd_int_binary64[of 1] rnd_int_binary64[of 0] rnd_int_binary64[of "- 1"]
  by simp_all

lemmas num_eval =
  fadd_Num fsub_Num fmul_Num fdiv_Num fless_Num fle_Num to_format_Num fmin_def
  of_int_format_def signed_zero_def rnd_numeral_binary32 rnd_numeral_binary64

text \<open>Rounding is idempotent, its results are multiples of the least subnormal number,
  and a non-zero multiple of that number does not round to zero.\<close>

lemma round_real_form:
  fixes x :: real and p :: nat and emin emax :: int
  assumes x: "x \<noteq> 0" and p: "0 < p"
  defines "Q \<equiv> max (ilog2 x) emin - (int p - 1)"
  shows "round_real (p, emin, emax) x = of_int (round_even (x / 2 powi Q)) * 2 powi Q"
    and "\<bar>round_even (x / 2 powi Q)\<bar> \<le> 2 ^ p"
    and "emin - (int p - 1) \<le> Q"
    and "1 \<le> \<bar>x / 2 powi Q\<bar> \<Longrightarrow> round_even (x / 2 powi Q) \<noteq> 0"
proof -
  define y where "y = x / 2 powi Q"
  show "round_real (p, emin, emax) x = of_int (round_even (x / 2 powi Q)) * 2 powi Q"
    by (simp add: round_real_def Q_def Let_def)
  show "emin - (int p - 1) \<le> Q" by (simp add: Q_def)
  have "ilog2 x + 1 - Q \<le> int p" by (simp add: Q_def)
  then have "(2::real) powi (ilog2 x + 1 - Q) \<le> 2 powi int p"
    by (intro power_int_increasing) simp_all
  moreover have "\<bar>y\<bar> < 2 powi (ilog2 x + 1 - Q)"
  proof -
    have "\<bar>y\<bar> = \<bar>x\<bar> / 2 powi Q" by (simp add: y_def abs_divide)
    also have "\<dots> < 2 powi (ilog2 x + 1) / 2 powi Q"
      using ilog2_bounds(2)[OF x] by (intro divide_strict_right_mono) simp_all
    also have "\<dots> = 2 powi (ilog2 x + 1 - Q)" by (simp add: power_int_diff)
    finally show ?thesis .
  qed
  ultimately have yb: "\<bar>y\<bar> < 2 ^ p" by simp
  have "real_of_int (2 ^ p) = 2 ^ p" by simp
  from yb have "y \<le> real_of_int (2 ^ p)" by simp
  then have u: "\<lceil>y\<rceil> \<le> 2 ^ p" by (simp only: ceiling_le_iff)
  from yb have "real_of_int (- (2 ^ p)) \<le> y" by simp
  then have l: "- (2 ^ p) \<le> \<lfloor>y\<rfloor>" by (simp only: le_floor_iff)
  from round_even_bounds[of y] u l have "\<bar>round_even y\<bar> \<le> 2 ^ p" by linarith
  then show "\<bar>round_even (x / 2 powi Q)\<bar> \<le> 2 ^ p" by (simp add: y_def)
  show "round_even (x / 2 powi Q) \<noteq> 0" if "1 \<le> \<bar>x / 2 powi Q\<bar>"
  proof (cases "0 \<le> y")
    case True
    from that have "1 \<le> \<bar>y\<bar>" by (simp only: y_def)
    with True have "1 \<le> y" by linarith
    then have "real_of_int 1 \<le> y" by simp
    then have "1 \<le> \<lfloor>y\<rfloor>" by (simp only: le_floor_iff)
    with round_even_bounds(1)[of y] have "1 \<le> round_even y" by linarith
    then have "round_even y \<noteq> 0" by simp
    then show ?thesis unfolding y_def .
  next
    case False
    from that have "1 \<le> \<bar>y\<bar>" by (simp only: y_def)
    with False have "y \<le> - 1" by linarith
    then have "y \<le> real_of_int (- 1)" by simp
    then have "\<lceil>y\<rceil> \<le> - 1" by (simp only: ceiling_le_iff)
    with round_even_bounds(2)[of y] have "round_even y \<le> - 1" by linarith
    then have "round_even y \<noteq> 0" by simp
    then show ?thesis unfolding y_def .
  qed
qed


lemma round_real_grid:
  assumes p: "0 < p" and g: "g \<le> emin - (int p - 1)"
  shows "\<exists>m::int. round_real (p, emin, emax) x = of_int m * 2 powi g"
proof (cases "x = 0")
  case True
  then have "round_real (p, emin, emax) x = of_int 0 * 2 powi g" by (simp add: round_real_def)
  then show ?thesis by blast
next
  case False
  define Q where "Q = max (ilog2 x) emin - (int p - 1)"
  define K where "K = round_even (x / 2 powi Q)"
  note F = round_real_form[OF False p, where emin = emin, folded Q_def]
  have r: "round_real (p, emin, emax) x = of_int K * 2 powi Q"
    using F(1) by (simp add: K_def)
  from F(3) g have gQ: "g \<le> Q" by simp
  have "(2::real) powi Q = 2 powi (Q - g) * 2 powi g"
    by (simp add: power_int_diff)
  also have "(2::real) powi (Q - g) = of_int (2 ^ nat (Q - g))"
    using gQ by (simp add: power_int_def)
  finally have "real_of_int K * 2 powi Q = of_int (K * 2 ^ nat (Q - g)) * 2 powi g"
    by simp
  with r have "round_real (p, emin, emax) x = of_int (K * 2 ^ nat (Q - g)) * 2 powi g"
    by simp
  then show ?thesis by blast
qed


text \<open>A value is \<open>gridded\<close> when, if finite, it is a multiple of the least subnormal
  \<^verbatim>\<open>double\<close>; every result of an addition or subtraction in either format is. A
  \<^verbatim>\<open>double\<close> other than the negative zero is \<open>settled\<close>: adding the positive zero
  gives it back.\<close>

lemma rnd_gridded:
  assumes "0 < p" "- 1074 \<le> emin - (int p - 1)"
  shows "rnd (p, emin, emax) x = Num r \<Longrightarrow> \<exists>m::int. r = of_int m * 2 powi (- 1074)"
  using round_real_grid[OF assms, of emax x]
  by (auto simp: rnd_def Let_def split: if_splits intro: exI[of _ 0])

lemma fadd_gridded:
  assumes "f = binary32 \<or> f = binary64" and "fadd f a b = Num r"
  shows "\<exists>m::int. r = of_int m * 2 powi (- 1074)"
proof -
  from assms(2) have "r = 0 \<or> rnd f (val a + val b) = Num r"
    by (auto simp: fadd_def is_inf_def split: if_splits)
  then show ?thesis
  proof
    assume "r = 0"
    then have "r = of_int 0 * 2 powi (- 1074)" by simp
    then show ?thesis by blast
  next
    assume r: "rnd f (val a + val b) = Num r"
    from assms(1) show ?thesis
    proof
      assume "f = binary32"
      with r have "rnd (24, - 126, 127) (val a + val b) = Num r" by (simp add: binary32_def)
      then show ?thesis by (rule rnd_gridded[rotated 2]) simp_all
    next
      assume "f = binary64"
      with r have "rnd (53, - 1022, 1023) (val a + val b) = Num r" by (simp add: binary64_def)
      then show ?thesis by (rule rnd_gridded[rotated 2]) simp_all
    qed
  qed
qed




lemma fsub_gridded:
  assumes "f = binary32 \<or> f = binary64" and "fsub f a b = Num r"
  shows "\<exists>m::int. r = of_int m * 2 powi (- 1074)"
  using assms unfolding fsub_def by (rule fadd_gridded)

lemma gridded_simps [simp]:
  "gridded (Num 0)" "gridded MinusZero" "gridded PlusInf" "gridded MinusInf" "gridded NaN"
  by (auto simp: gridded_def intro: exI[of _ 0])

lemma gridded_fadd [simp]: "gridded (fadd binary32 a b)" "gridded (fadd binary64 a b)"
  unfolding gridded_def by (blast intro: fadd_gridded)+

lemma gridded_fsub [simp]: "gridded (fsub binary32 a b)" "gridded (fsub binary64 a b)"
  unfolding gridded_def by (blast intro: fsub_gridded)+













section \<open>The ring invariant holds in every reachable state\<close>

lemma smod_nonneg: "0 \<le> a \<Longrightarrow> 0 < b \<Longrightarrow> a smod b = a mod (b::int)"
  by (simp add: signed_modulo_int_def sgn_if)

lemma check_size_sound:
  assumes "check_size q h t s" "0 \<le> h" "h < capacity q" "0 \<le> t" "t < capacity q" "0 \<le> s"
  shows "s \<le> capacity q \<and> t = (h + s) mod capacity q"
proof (cases "s = 0")
  case True
  with assms show ?thesis by (simp add: check_size_def)
next
  case False
  show ?thesis
  proof (cases "t > h")
    case True
    with False assms have "t - h = s" by (simp add: check_size_def)
    with assms True show ?thesis by auto
  next
    case F2: False
    with False assms have e: "t + capacity q - h = s" by (simp add: check_size_def)
    then have "h + s = t + capacity q" by simp
    then have "(h + s) mod capacity q = t mod capacity q" by simp
    with assms e F2 show ?thesis by auto
  qed
qed

lemma check_size_complete:
  assumes "0 < capacity q" "0 \<le> h" "h < capacity q" "0 \<le> s" "s \<le> capacity q"
  shows "check_size q h ((h + s) mod capacity q) s"
proof (cases "h + s < capacity q")
  case True
  with assms have "(h + s) mod capacity q = h + s" by simp
  with assms show ?thesis by (simp add: check_size_def)
next
  case False
  with assms have a: "(h + s - capacity q) mod capacity q = h + s - capacity q"
    by (intro mod_pos_pos_trivial) auto
  have "(h + s) mod capacity q = (h + s - capacity q + capacity q) mod capacity q" by simp
  also have "\<dots> = (h + s - capacity q) mod capacity q" by (rule mod_add_self2)
  finally have "(h + s) mod capacity q = h + s - capacity q" using a by simp
  with assms False show ?thesis by (simp add: check_size_def)
qed



lemma store_invD:
  assumes "store_inv q ps"
  shows "0 < capacity q" "0 \<le> head_m q" "head_m q < capacity q"
    "0 \<le> safe_size_m q" "safe_size_m q \<le> size_m q" "size_m q \<le> capacity q"
    "tail_m q = (head_m q + size_m q) mod capacity q"
    "safe_tail_m q = (head_m q + safe_size_m q) mod capacity q"
    "size_m q - safe_size_m q = pending_total ps"
    "\<And>p. p \<in> set ps \<Longrightarrow> p_fin p = (p_start p + int (length (p_block p))) mod capacity q"
    "length (evicted_m q) = nat (capacity q)"
    "length (elements_m q) = nat (capacity q)"
    "length (weights_m q) = nat (capacity q)"
  using assms unfolding store_inv_def by blast+

lemma store_invI:
  assumes "0 < capacity q" "0 \<le> head_m q" "head_m q < capacity q"
    "0 \<le> safe_size_m q" "safe_size_m q \<le> size_m q" "size_m q \<le> capacity q"
    "tail_m q = (head_m q + size_m q) mod capacity q"
    "safe_tail_m q = (head_m q + safe_size_m q) mod capacity q"
    "size_m q - safe_size_m q = pending_total ps"
    "\<And>p. p \<in> set ps \<Longrightarrow> p_fin p = (p_start p + int (length (p_block p))) mod capacity q"
    "length (evicted_m q) = nat (capacity q)"
    "length (elements_m q) = nat (capacity q)"
    "length (weights_m q) = nat (capacity q)"
  shows "store_inv q ps"
  using assms unfolding store_inv_def by blast

lemma store_inv_init:
  "0 < cap \<Longrightarrow> ConcurrentQueue alloc d cap = Inr q \<Longrightarrow> store_inv q []"
  by (rule store_invI) (auto simp: ConcurrentQueue_def pending_total_def split: if_splits)

lemma pending_total_append:
  "pending_total (ps @ rs) = pending_total ps + pending_total rs"
  by (simp add: pending_total_def)

lemma pending_total_nonneg: "0 \<le> pending_total ps"
  by (induction ps) (simp_all add: pending_total_def)

lemma pending_total_remove:
  assumes "k < length ps"
  shows "pending_total ps =
         pending_total (take k ps @ drop (Suc k) ps) + int (length (p_block (ps ! k)))"
proof -
  have "ps = take k ps @ ps ! k # drop (Suc k) ps"
    using assms by (rule id_take_nth_drop)
  then have "pending_total ps = pending_total (take k ps @ ps ! k # drop (Suc k) ps)"
    by simp
  then show ?thesis
    by (simp add: pending_total_def)
qed

lemma store_inv_reserve:
  assumes inv: "store_inv q ps"
    and res: "block_append_reserve q (int (length block)) = Inr (q', start, fin)"
  shows "store_inv q' (ps @ [\<lparr>p_start = start, p_fin = fin, p_block = block, p_weights = ws\<rparr>])"
proof -
  let ?c = "capacity q" and ?n = "int (length block)"
  note d = store_invD[OF inv]
  from d(7) d(1) have t0: "0 \<le> tail_m q" by simp
  have fin_eq: "(tail_m q + ?n) smod ?c = (tail_m q + ?n) mod ?c"
    using t0 d(1) by (intro smod_nonneg) auto
  have tl: "(tail_m q + ?n) mod ?c = (head_m q + (size_m q + ?n)) mod ?c"
    unfolding d(7) by (simp add: mod_add_left_eq add.assoc)
  from res have room: "size_m q + ?n \<le> ?c"
    and q': "q' = q\<lparr>tail_m := (tail_m q + ?n) smod ?c, size_m := size_m q + ?n\<rparr>"
    and st: "start = tail_m q" and fi: "fin = (tail_m q + ?n) smod ?c"
    by (auto simp: block_append_reserve_def Let_def split: if_splits)
  show ?thesis
  proof (rule store_invI)
    show "size_m q' - safe_size_m q' =
        pending_total (ps @ [\<lparr>p_start = start, p_fin = fin, p_block = block, p_weights = ws\<rparr>])"
      using d(9) by (simp add: q' pending_total_append) (simp add: pending_total_def)
    show "tail_m q' = (head_m q' + size_m q') mod capacity q'"
      using fin_eq tl by (simp add: q')
    show "p_fin p = (p_start p + int (length (p_block p))) mod capacity q'"
      if "p \<in> set (ps @ [\<lparr>p_start = start, p_fin = fin, p_block = block, p_weights = ws\<rparr>])"
      for p using that d(10)[of p] fin_eq by (auto simp: q' st fi)
  qed (use d room in \<open>simp_all add: q'\<close>)
qed

lemma copy_loop_length:
  "copy_loop cap start xs ws i E W s = (E', W', s') \<Longrightarrow>
     length E' = length E \<and> length W' = length W"
  by (induction xs arbitrary: i E W s) (auto simp: Let_def)

lemma store_inv_copy:
  assumes inv: "store_inv q ps" and cp: "block_append_copy q start block ws = Inr (q1, s)"
  shows "store_inv q1 ps"
proof -
  note d = store_invD[OF inv]
  from cp obtain E W where
    cl: "copy_loop (capacity q) start block ws 0 (elements_m q) (weights_m q) (Num 0)
           = (E, W, s)"
    and q1: "q1 = q\<lparr>elements_m := E, weights_m := W\<rparr>"
    by (auto simp: block_append_copy_def split: if_splits prod.splits)
  from copy_loop_length[OF cl] have len: "length E = length (elements_m q)"
    "length W = length (weights_m q)" by simp_all
  show ?thesis
    by (rule store_invI) (use d len in \<open>simp_all add: q1\<close>)
qed

lemma store_inv_commit:
  assumes inv: "store_inv q ps" and k: "k < length ps"
    and com: "block_append_commit q (p_start (ps ! k)) (p_fin (ps ! k))
                (int (length (p_block (ps ! k)))) s = Inr q2"
  shows "store_inv q2 (take k ps @ drop (Suc k) ps)"
proof -
  let ?c = "capacity q" and ?n = "int (length (p_block (ps ! k)))"
  let ?rest = "take k ps @ drop (Suc k) ps"
  note d = store_invD[OF inv]
  from com have st: "safe_tail_m q = p_start (ps ! k)"
    and q2: "q2 = q\<lparr>safe_tail_m := p_fin (ps ! k), safe_size_m := safe_size_m q + ?n,
                      sum_m := fadd binary64 (sum_m q) s\<rparr>"
    by (auto simp: block_append_commit_def Let_def split: if_splits)
  from k have mem: "ps ! k \<in> set ps" by simp
  then have fin: "p_fin (ps ! k) = (p_start (ps ! k) + ?n) mod ?c"
    by (rule d(10))
  from d(8) st have "p_start (ps ! k) = (head_m q + safe_size_m q) mod ?c"
    by simp
  with fin have fin': "p_fin (ps ! k) = (head_m q + (safe_size_m q + ?n)) mod ?c"
    by (simp add: mod_add_left_eq add.assoc)
  have tot: "pending_total ps = pending_total ?rest + ?n"
    using k by (rule pending_total_remove)
  have nn: "0 \<le> pending_total ?rest" by (rule pending_total_nonneg)
  show ?thesis
  proof (rule store_invI)
    show "p_fin p = (p_start p + int (length (p_block p))) mod capacity q2"
      if "p \<in> set ?rest" for p
    proof -
      from that have "p \<in> set ps" by (auto dest: in_set_takeD in_set_dropD)
      then show ?thesis using d(10)[of p] by (simp add: q2)
    qed
    show "safe_tail_m q2 = (head_m q2 + safe_size_m q2) mod capacity q2"
      using fin' by (simp add: q2)
    show "safe_size_m q2 \<le> size_m q2" using d(9) tot nn by (simp add: q2)
    show "size_m q2 - safe_size_m q2 = pending_total ?rest" using d(9) tot by (simp add: q2)
  qed (use d in \<open>simp_all add: q2\<close>)
qed

lemma pop_loop_result:
  assumes "0 < cap" "0 \<le> h" "h < cap"
  shows "\<exists>d E'. pop_loop cap W n diff h E = (d, (h + int n) mod cap, E') \<and> length E' = length E"
  using assms
proof (induction n arbitrary: diff h E)
  case 0
  then show ?case by simp
next
  case (Suc n)
  let ?h = "(h + 1) smod cap"
  from Suc.prems have h1: "?h = (h + 1) mod cap" by (intro smod_nonneg) auto
  with Suc.prems have "0 \<le> ?h" "?h < cap" by simp_all
  from Suc.IH[OF Suc.prems(1) this, of "fsub binary64 diff (W ! nat h)" "E[nat h := True]"]
  obtain d E' where
    "pop_loop cap W n (fsub binary64 diff (W ! nat h)) ?h (E[nat h := True])
       = (d, (?h + int n) mod cap, E')"
    "length E' = length E" by auto
  moreover have "(?h + int n) mod cap = (h + 1 + int n) mod cap"
    unfolding h1 by (rule mod_add_left_eq)
  moreover have "h + 1 + int n = h + int (Suc n)" by simp
  ultimately show ?case by simp
qed

lemma store_inv_pop:
  assumes inv: "store_inv q ps" and n: "0 \<le> n \<or> ps = []"
    and pop: "block_pop q n = Inr q'"
  shows "store_inv q' ps"
proof -
  let ?c = "capacity q"
  note d = store_invD[OF inv]
  from pop_loop_result[OF d(1,2,3), of "weights_m q" "nat n" "Num 0" "evicted_m q"]
  obtain df E' where pl:
    "pop_loop ?c (weights_m q) (nat n) (Num 0) (head_m q) (evicted_m q)
       = (df, (head_m q + int (nat n)) mod ?c, E')"
    and len: "length E' = length (evicted_m q)" by auto
  let ?h' = "(head_m q + int (nat n)) mod ?c"
  from pop pl have q': "q' = q\<lparr>evicted_m := E', sum_m := fadd binary64 (sum_m q) df,
        head_m := ?h',
        safe_size_m := safe_size_m q - n, size_m := size_m q - n\<rparr>"
    and ss: "0 \<le> safe_size_m q - n"
    and chk: "check_size q' ?h' (safe_tail_m q) (safe_size_m q - n)"
    by (auto simp: block_pop_def Let_def split: if_splits)
  have cap': "capacity q' = ?c" by (simp add: q')
  from d(1) have h': "0 \<le> ?h'" "?h' < ?c" by simp_all
  from d(8) d(1) have st: "0 \<le> safe_tail_m q" "safe_tail_m q < ?c"
    by simp_all
  from check_size_sound[OF chk] h' st ss cap'
  have safe: "safe_size_m q - n \<le> ?c" "safe_tail_m q = (?h' + (safe_size_m q - n)) mod ?c"
    by simp_all
  have sz: "size_m q - n \<le> ?c \<and> tail_m q = (?h' + (size_m q - n)) mod ?c"
  proof (cases "0 \<le> n")
    case True
    then have "(?h' + (size_m q - n)) mod ?c = (head_m q + size_m q) mod ?c"
      by (simp add: mod_add_left_eq)
    with d(6,7) True show ?thesis by simp
  next
    case False
    with n have e: "ps = []" by simp
    with d(9) have eq: "size_m q = safe_size_m q"
      by (simp add: pending_total_def)
    with d(7,8) have "tail_m q = safe_tail_m q" by simp
    with safe eq show ?thesis by simp
  qed
  show ?thesis
  proof (rule store_invI)
    show "0 < capacity q'" using d(1) by (simp add: q')
    show "0 \<le> head_m q'" using h'(1) by (simp add: q')
    show "head_m q' < capacity q'" using h'(2) by (simp add: q')
    show "0 \<le> safe_size_m q'" using ss by (simp add: q')
    show "safe_size_m q' \<le> size_m q'" using d(5) by (simp add: q')
    show "size_m q' \<le> capacity q'" using sz by (simp add: q')
    show "tail_m q' = (head_m q' + size_m q') mod capacity q'" using sz by (simp add: q')
    show "safe_tail_m q' = (head_m q' + safe_size_m q') mod capacity q'"
      using safe by (simp add: q')
    show "size_m q' - safe_size_m q' = pending_total ps" using d(9) by (simp add: q')
    show "p_fin p = (p_start p + int (length (p_block p))) mod capacity q'"
      if "p \<in> set ps" for p using d(10)[OF that] by (simp add: q')
    show "length (evicted_m q') = nat (capacity q')" using d(11) len by (simp add: q')
    show "length (elements_m q') = nat (capacity q')" using d(12) by (simp add: q')
    show "length (weights_m q') = nat (capacity q')" using d(13) by (simp add: q')
  qed
qed

lemma update_loop_length:
  "update_loop ws E ids i W diff = (W', d') \<Longrightarrow> length W' = length W"
  by (induction ids arbitrary: i W diff) (auto split: if_splits)

lemma store_inv_update:
  assumes inv: "store_inv q ps"
  shows "store_inv (update q ids ws) ps"
proof -
  note d = store_invD[OF inv]
  obtain W df where ul: "update_loop ws (evicted_m q) ids 0 (weights_m q) (Num 0) = (W, df)"
    by (cases "update_loop ws (evicted_m q) ids 0 (weights_m q) (Num 0)") auto
  then have u: "update q ids ws = q\<lparr>weights_m := W, sum_m := fadd binary64 (sum_m q) df\<rparr>"
    by (simp add: update_def)
  from update_loop_length[OF ul] have len: "length W = length (weights_m q)" .
  show ?thesis
    by (rule store_invI) (use d len in \<open>simp_all add: u\<close>)
qed

lemma store_inv_mark:
  assumes inv: "store_inv q ps"
  shows "store_inv (snd (get_element_and_mark q idx)) ps"
proof -
  note d = store_invD[OF inv]
  show ?thesis
    by (rule store_invI) (use d in \<open>simp_all add: get_element_and_mark_def Let_def\<close>)
qed

lemma cq_reach_inv: "cq_reach q ps \<Longrightarrow> store_inv q ps"
proof (induction rule: cq_reach.induct)
  case (init cap alloc d q)
  then show ?case by (rule store_inv_init)
next
  case (reserve q ps block q' start fin ws)
  from reserve.IH reserve.hyps(2) show ?case by (rule store_inv_reserve)
next
  case (commit q ps k q1 s q2)
  from commit.IH commit.hyps(3) have "store_inv q1 ps" by (rule store_inv_copy)
  from this commit.hyps(2,4) show ?case by (rule store_inv_commit)
next
  case (pop q ps n q')
  from pop.IH pop.hyps(2,3) show ?case by (rule store_inv_pop)
next
  case (upd q ps ids ws)
  from upd.IH show ?case by (rule store_inv_update)
next
  case (mark q ps idx)
  from mark.IH show ?case by (rule store_inv_mark)
qed

lemma smod_numeral_simps [simp]:
  "(numeral a :: int) smod numeral b = numeral a mod numeral b"
  "(0 :: int) smod numeral b = 0"
  "(1 :: int) smod numeral b = 1 mod numeral b"
  by (simp_all add: signed_modulo_int_def)

lemma ConcurrentQueue_ex_empty:
  "0 \<le> cap \<Longrightarrow> ConcurrentQueue (\<lambda>n. True) (0::nat) cap = Inr (ex_empty cap)"
  by (simp add: ConcurrentQueue_def ex_empty_def)

lemma block_append_ex_store1:
  "block_append (ex_empty 5) [10, 11] [Num 1, Num 3] = Inr ex_store1"
  by (simp add: block_append_def block_append_reserve_def block_append_copy_def
      block_append_commit_def ex_empty_def check_size_def ex_store1_def
      numeral_eq_Suc Let_def num_eval)

lemma reserve_ex_store2:
  "block_append_reserve ex_store1 (int (length [12::nat])) = Inr (ex_store2, 2, 3)"
  by (simp add: block_append_reserve_def ex_store1_def ex_store2_def check_size_def Let_def)

lemma block_append_ex_full:
  "block_append (ex_empty 2) [10, 11] [Num 1, Num 1] = Inr ex_full"
  by (simp add: block_append_def block_append_reserve_def block_append_copy_def
      block_append_commit_def ex_empty_def check_size_def ex_full_def
      numeral_eq_Suc Let_def num_eval)

lemma cq_reach_block_append:
  assumes r: "cq_reach q ps" and a: "block_append q block ws = Inr q'"
  shows "cq_reach q' ps"
proof -
  from a obtain q1 start fin where
    res: "block_append_reserve q (int (length block)) = Inr (q1, start, fin)"
    by (auto simp: block_append_def split: sum.splits)
  with a obtain q2 s where cp: "block_append_copy q1 start block ws = Inr (q2, s)"
    and cm: "block_append_commit q2 start fin (int (length block)) s = Inr q'"
    by (auto simp: block_append_def split: sum.splits)
  let ?p = "\<lparr>p_start = start, p_fin = fin, p_block = block, p_weights = ws\<rparr>"
  let ?ps = "ps @ [?p]"
  from r res have r1: "cq_reach q1 ?ps" by (rule cq_reach.reserve)
  have k: "length ps < length ?ps" by simp
  have nth: "?ps ! length ps = ?p" by simp
  from cp have cp': "block_append_copy q1 (p_start (?ps ! length ps))
      (p_block (?ps ! length ps)) (p_weights (?ps ! length ps)) = Inr (q2, s)"
    by (simp only: nth) simp
  from cm have cm': "block_append_commit q2 (p_start (?ps ! length ps)) (p_fin (?ps ! length ps))
      (int (length (p_block (?ps ! length ps)))) s = Inr q'"
    by (simp only: nth) simp
  from cq_reach.commit[OF r1 k cp' cm']
  show ?thesis by simp
qed

lemma cq_reach_ex_empty: "0 < cap \<Longrightarrow> cq_reach (ex_empty cap) []"
proof -
  assume c: "0 < cap"
  then have "ConcurrentQueue (\<lambda>n. True) (0::nat) cap = Inr (ex_empty cap)"
    by (intro ConcurrentQueue_ex_empty) simp
  with c show ?thesis by (rule cq_reach.init)
qed

lemma cq_reach_ex_store1: "cq_reach ex_store1 []"
proof -
  have "cq_reach (ex_empty 5) []" by (rule cq_reach_ex_empty) simp
  then show ?thesis using block_append_ex_store1 by (rule cq_reach_block_append)
qed

lemma cq_reach_ex_store2: "cq_reach ex_store2 [ex_pending]"
proof -
  from cq_reach.reserve[OF cq_reach_ex_store1 reserve_ex_store2, of "[Num 5]"]
  show ?thesis by (simp add: ex_pending_def)
qed

lemma cq_reach_ex_full: "cq_reach ex_full []"
proof -
  have "cq_reach (ex_empty 2) []" by (rule cq_reach_ex_empty) simp
  then show ?thesis using block_append_ex_full by (rule cq_reach_block_append)
qed


section \<open>The head-tail arithmetic of the ring (C3)\<close>

text \<open>
  Claim C3, as the code has it. In every state reached through the store's operations,
  also while producers are between the two locked phases of \<^verbatim>\<open>block_append\<close>:
  \<open>0 \<le> safe_size \<le> size \<le> capacity\<close>; the tail is the head advanced by \<open>size\<close> modulo
  the capacity, so \<open>(tail - head) mod capacity = size mod capacity\<close>. This is \<open>size\<close>
  itself as long as the ring is not full; when \<open>size = 0\<close> or \<open>size = capacity\<close> (a full
  ring, which \<^verbatim>\<open>check_size\<close> accepts in its last branch) the tail equals the head.
  The same holds of \<open>safe_tail\<close> and \<open>safe_size\<close>.
\<close>

theorem ring_arithmetic:
  assumes "cq_reach q ps"
  shows "0 \<le> safe_size_m q \<and> safe_size_m q \<le> size_m q \<and> size_m q \<le> capacity q \<and>
    (tail_m q - head_m q) mod capacity q = size_m q mod capacity q \<and>
    (size_m q = 0 \<or> size_m q = capacity q \<longrightarrow> tail_m q = head_m q) \<and>
    (size_m q < capacity q \<longrightarrow> (tail_m q - head_m q) mod capacity q = size_m q) \<and>
    (safe_tail_m q - head_m q) mod capacity q = safe_size_m q mod capacity q \<and>
    (safe_size_m q = 0 \<or> safe_size_m q = capacity q \<longrightarrow> safe_tail_m q = head_m q) \<and>
    (safe_size_m q < capacity q \<longrightarrow>
       (safe_tail_m q - head_m q) mod capacity q = safe_size_m q)"
proof -
  from assms have inv: "store_inv q ps" by (rule cq_reach_inv)
  note d = store_invD[OF inv]
  have gen: "(t - head_m q) mod capacity q = n mod capacity q \<and>
      (n = 0 \<or> n = capacity q \<longrightarrow> t = head_m q) \<and>
      (n < capacity q \<longrightarrow> (t - head_m q) mod capacity q = n)"
    if t: "t = (head_m q + n) mod capacity q" and n: "0 \<le> n" for t n
  proof -
    have "(t - head_m q) mod capacity q = (head_m q + n - head_m q) mod capacity q"
      unfolding t by (rule mod_diff_left_eq)
    then have m: "(t - head_m q) mod capacity q = n mod capacity q" by simp
    have "t = head_m q" if "n = 0 \<or> n = capacity q"
      using that t d(2,3) by auto
    moreover have "(t - head_m q) mod capacity q = n" if "n < capacity q"
      using that m n by simp
    ultimately show ?thesis using m by blast
  qed
  from d(4,5) have "0 \<le> size_m q" by simp
  from gen[OF d(7) this] gen[OF d(8) d(4)] d(4,5,6) show ?thesis by blast
qed

text \<open>An instance: a store holding two committed records and one reserved slot, and a
  full store.\<close>

theorem ring_arithmetic_witness:
  "safe_size_m ex_store2 = 2 \<and> size_m ex_store2 = 3 \<and> capacity ex_store2 = 5 \<and>
   (tail_m ex_store2 - head_m ex_store2) mod capacity ex_store2 = size_m ex_store2 \<and>
   (safe_tail_m ex_store2 - head_m ex_store2) mod capacity ex_store2 = safe_size_m ex_store2 \<and>
   tail_m ex_full = head_m ex_full"
  using ring_arithmetic[OF cq_reach_ex_store2] ring_arithmetic[OF cq_reach_ex_full]
  by (simp add: ex_store2_def ex_store1_def ex_full_def)

text \<open>The claim as worded fails on a full ring: after two records are appended to a
  store of capacity 2, \<open>size = 2\<close> and \<open>(tail - head) mod capacity = 0\<close>.\<close>

theorem full_ring_counterexample:
  "ConcurrentQueue (\<lambda>n. True) (0::nat) 2 = Inr (ex_empty 2) \<and>
   block_append (ex_empty 2) [10, 11] [Num 1, Num 1] = Inr ex_full \<and>
   cq_reach ex_full [] \<and> size_m ex_full \<noteq> 0 \<and>
   (tail_m ex_full - head_m ex_full) mod capacity ex_full \<noteq> size_m ex_full"
  using block_append_ex_full cq_reach_ex_full ConcurrentQueue_ex_empty[of 2]
  by (simp add: ex_full_def)


section \<open>The physical capacity chosen by the constructor (C8)\<close>

text \<open>An \<^verbatim>\<open>int\<close> converts to \<^verbatim>\<open>double\<close> without rounding, and so does its product
  with \<open>1.25\<close>.\<close>

lemma of_int_binary64:
  assumes "\<bar>c\<bar> \<le> 2147483648"
  shows "of_int_format binary64 c = Num (of_int c)"
  unfolding of_int_format_def using assms by (intro rnd_int_binary64) simp

lemma fmul_five_quarters:
  assumes "0 < c" "c \<le> 2147483647"
  shows "fmul binary64 (Num 1.25) (of_int_format binary64 c) = Num (5 * real_of_int c / 4)"
proof -
  define x :: real where "x = of_int (5 * c) * 2 powi (- 2)"
  have xe: "x = 5 * real_of_int c / 4" by (simp add: x_def power_int_minus)
  from assms have k: "\<bar>5 * c\<bar> < 2 ^ 53" by simp
  from assms have "\<bar>x\<bar> \<le> 2 ^ 53 - 1" by (simp add: xe)
  then have "\<bar>x\<bar> \<le> largest binary64" by (rule largest_binary64_ge)
  then have "\<bar>of_int (5 * c) * 2 powi (- 2)\<bar> \<le> largest (53, - 1022, 1023)"
    by (simp add: x_def binary64_def)
  with k have "rnd (53, - 1022, 1023) (of_int (5 * c) * 2 powi (- 2))
      = Num (of_int (5 * c) * 2 powi (- 2))"
    by (intro rnd_exact) simp_all
  then have r: "rnd binary64 x = Num x" by (simp only: x_def binary64_def)
  from assms have o: "of_int_format binary64 c = Num (of_int c)"
    by (intro of_int_binary64) simp
  from assms(1) have m: "fmul binary64 (Num 1.25) (Num (of_int c)) = rnd binary64 x"
    by (simp add: fmul_def is_inf_def is_zero_def xe)
  show ?thesis unfolding o m r by (simp add: xe)
qed

lemma trunc_int_physical: "0 \<le> c \<Longrightarrow> trunc_int (5 * real_of_int c / 4) = c + c div 4"
proof -
  assume c: "0 \<le> c"
  have "\<lfloor>real_of_int (5 * c) / real_of_int 4\<rfloor> = (5 * c) div 4"
    by (rule floor_divide_of_int_eq)
  moreover have "5 * c = c + c * 4" by simp
  then have "(5 * c) div 4 = (c + c * 4) div 4" by (rule arg_cong)
  then have "(5 * c) div 4 = c + c div 4" by simp
  ultimately show ?thesis using c by (simp add: trunc_int_def)
qed

text \<open>The truncated product is within the range of \<^verbatim>\<open>int\<close> exactly up to the nominal
  capacity 1717986918.\<close>

lemma physical_in_range:
  fixes c :: int
  assumes "0 < c"
  shows "c + c div 4 \<le> 2147483647 \<longleftrightarrow> c \<le> 1717986918"
proof
  assume "c \<le> 1717986918"
  then have "c div 4 \<le> 1717986918 div 4" by (rule zdiv_mono1) simp
  with \<open>c \<le> 1717986918\<close> show "c + c div 4 \<le> 2147483647" by simp
next
  assume a: "c + c div 4 \<le> 2147483647"
  show "c \<le> 1717986918"
  proof (rule ccontr)
    assume "\<not> c \<le> 1717986918"
    then have b: "1717986919 \<le> c" by simp
    then have "1717986919 div 4 \<le> c div 4" by (rule zdiv_mono1) simp
    with b a show False by simp
  qed
qed

lemma int_of_double_physical:
  assumes "0 < c" "c \<le> 2147483647"
  shows "int_of_double (fmul binary64 (Num 1.25) (of_int_format binary64 c))
         = (if c \<le> 1717986918 then c + c div 4 else - 2147483648)"
proof -
  from assms have t: "trunc_int (5 * real_of_int c / 4) = c + c div 4"
    by (intro trunc_int_physical) simp
  from assms have "0 \<le> c div 4" by simp
  with assms have lo: "- 2147483648 \<le> c + c div 4" by simp
  show ?thesis
    unfolding fmul_five_quarters[OF assms] int_of_double_def
    using physical_in_range[OF assms(1)] lo by (simp add: t)
qed

lemma PrioritizedReplay_Inr:
  assumes "0 < c" "c \<le> 1717986918" "alloc (c + c div 4)"
  shows "PrioritizedReplay alloc d c seed alpha beta prefetch =
     Inr \<lparr>alpha_m = alpha, beta_m = beta, prefetch_m = prefetch, capacity_m = c,
          storage_m = \<lparr>capacity = c + c div 4, head_m = 0, tail_m = 0, size_m = 0,
             safe_tail_m = 0, safe_size_m = 0, sum_m = Num 0,
             evicted_m = replicate (nat (c + c div 4)) False,
             elements_m = replicate (nat (c + c div 4)) d,
             weights_m = replicate (nat (c + c div 4)) (Num 0)\<rparr>,
          num_add_m = 0, sampled_ids_m = [], futures_m = [], last_query_m = 0\<rparr>"
proof -
  from assms have "c \<le> 2147483647" by simp
  from int_of_double_physical[OF assms(1) this] assms(2)
  have i: "int_of_double (fmul binary64 (Num 1.25) (of_int_format binary64 c)) = c + c div 4"
    by simp
  from assms(1) have "0 \<le> c div 4" by simp
  with assms(1) have "\<not> c + c div 4 < 0" by simp
  with assms(3) show ?thesis
    unfolding PrioritizedReplay_def i by (simp add: ConcurrentQueue_def)
qed

lemma PrioritizedReplay_Inl:
  assumes "0 < c" "c \<le> 2147483647" "1717986918 < c \<or> \<not> alloc (c + c div 4)"
  shows "PrioritizedReplay alloc d c seed alpha beta prefetch = Inl LibraryError"
proof (cases "c \<le> 1717986918")
  case True
  with int_of_double_physical[OF assms(1,2)]
  have i: "int_of_double (fmul binary64 (Num 1.25) (of_int_format binary64 c)) = c + c div 4"
    by simp
  from True assms(3) have "\<not> alloc (c + c div 4)" by simp
  then show ?thesis unfolding PrioritizedReplay_def i by (simp add: ConcurrentQueue_def)
next
  case False
  with int_of_double_physical[OF assms(1,2)]
  have i: "int_of_double (fmul binary64 (Num 1.25) (of_int_format binary64 c)) = - 2147483648"
    by simp
  show ?thesis unfolding PrioritizedReplay_def i by (simp add: ConcurrentQueue_def)
qed

text \<open>
  Claim C8, as the code has it. Let \<open>c > 0\<close> be a nominal capacity (an \<^verbatim>\<open>int\<close>). When
  \<open>c \<le> 1717986918\<close> and the vectors can be allocated, the constructor returns and the
  store has capacity \<^verbatim>\<open>int(1.25 * capacity)\<close>, the floor of \<open>1.25 c\<close>, that is
  \<open>c + c div 4\<close>; it is the ceiling of \<open>1.25 c\<close> exactly when \<open>c\<close> is a multiple of 4.
  For a larger \<open>c\<close> the product is outside the range of \<^verbatim>\<open>int\<close>, the converted
  capacity is negative and the constructor leaves with an exception, as it does when the
  allocation fails.
\<close>

theorem physical_capacity:
  assumes "0 < c" and "c \<le> 2147483647"
  shows "(c \<le> 1717986918 \<and> alloc (c + c div 4) \<longrightarrow>
            (\<exists>P. PrioritizedReplay alloc d c seed alpha beta prefetch = Inr P \<and>
                 capacity (storage_m P) = \<lfloor>1.25 * real_of_int c\<rfloor> \<and>
                 capacity (storage_m P) = c + c div 4 \<and>
                 (capacity (storage_m P) = \<lceil>1.25 * real_of_int c\<rceil> \<longleftrightarrow> c mod 4 = 0))) \<and>
         (1717986918 < c \<or> \<not> alloc (c + c div 4) \<longrightarrow>
            PrioritizedReplay alloc d c seed alpha beta prefetch = Inl LibraryError)"
proof (intro conjI impI)
  assume a: "c \<le> 1717986918 \<and> alloc (c + c div 4)"
  have e: "1.25 * real_of_int c = real_of_int (5 * c) / real_of_int 4" by simp
  have fl: "\<lfloor>1.25 * real_of_int c\<rfloor> = (5 * c) div 4"
    unfolding e by (rule floor_divide_of_int_eq)
  have "5 * c = c + c * 4" by simp
  then have "(5 * c) div 4 = (c + c * 4) div 4" by (rule arg_cong)
  then have dv: "(5 * c) div 4 = c + c div 4" by simp
  have ce: "\<lceil>1.25 * real_of_int c\<rceil> = - ((- (5 * c)) div 4)"
    unfolding e by (rule ceiling_divide_eq_div)
  have iff: "(5 * c) div 4 = - ((- (5 * c)) div 4) \<longleftrightarrow> c mod 4 = 0"
  proof -
    have "5 * c = c + c * 4" by simp
    then have "(5 * c) mod 4 = (c + c * 4) mod 4" by (rule arg_cong)
    also have "\<dots> = c mod 4" by (rule mod_mult_self1)
    finally have m: "(5 * c) mod 4 = c mod 4" .
    have "(- (5 * c)) div 4 =
        (if (5 * c) mod 4 = 0 then - ((5 * c) div 4) else - ((5 * c) div 4) - 1)"
      by (rule zdiv_zminus1_eq_if) simp
    with m show ?thesis by simp
  qed
  from a assms(1) have "PrioritizedReplay alloc d c seed alpha beta prefetch =
     Inr \<lparr>alpha_m = alpha, beta_m = beta, prefetch_m = prefetch, capacity_m = c,
          storage_m = \<lparr>capacity = c + c div 4, head_m = 0, tail_m = 0, size_m = 0,
             safe_tail_m = 0, safe_size_m = 0, sum_m = Num 0,
             evicted_m = replicate (nat (c + c div 4)) False,
             elements_m = replicate (nat (c + c div 4)) d,
             weights_m = replicate (nat (c + c div 4)) (Num 0)\<rparr>,
          num_add_m = 0, sampled_ids_m = [], futures_m = [], last_query_m = 0\<rparr>"
    by (intro PrioritizedReplay_Inr) simp_all
  then show "\<exists>P. PrioritizedReplay alloc d c seed alpha beta prefetch = Inr P \<and>
       capacity (storage_m P) = \<lfloor>1.25 * real_of_int c\<rfloor> \<and>
       capacity (storage_m P) = c + c div 4 \<and>
       (capacity (storage_m P) = \<lceil>1.25 * real_of_int c\<rceil> \<longleftrightarrow> c mod 4 = 0)"
    using fl dv ce iff by simp
next
  assume "1717986918 < c \<or> \<not> alloc (c + c div 4)"
  with assms show "PrioritizedReplay alloc d c seed alpha beta prefetch = Inl LibraryError"
    by (rule PrioritizedReplay_Inl)
qed

lemma PrioritizedReplay_ex_new:
  assumes "0 < c" "c \<le> 1717986918"
  shows "PrioritizedReplay (\<lambda>n. True) (0::nat) c 0 (Num 1) (Num (- 1)) 0
         = Inr (ex_new c (c + c div 4))"
  using PrioritizedReplay_Inr[OF assms, of "\<lambda>n. True" "0::nat" 0 "Num 1" "Num (- 1)" 0]
  by (simp add: ex_new_def ex_empty_def)

text \<open>Instances: the nominal capacities 10 and 4 give 12 and 5 slots, the latter being
  the ceiling of \<open>1.25 \<sqdot> 4\<close>; for the nominal capacity 2000000000 no store is built.\<close>

theorem physical_capacity_witness:
  "PrioritizedReplay (\<lambda>n. True) (0::nat) 10 0 (Num 1) (Num (- 1)) 0 = Inr (ex_new 10 12) \<and>
   capacity (storage_m (ex_new 10 12)) = 12 \<and>
   PrioritizedReplay (\<lambda>n. True) (0::nat) 4 0 (Num 1) (Num (- 1)) 0 = Inr (ex_new 4 5) \<and>
   capacity (storage_m (ex_new 4 5)) = \<lceil>1.25 * real_of_int 4\<rceil> \<and>
   PrioritizedReplay (\<lambda>n. True) (0::nat) 2000000000 0 (Num 1) (Num (- 1)) 0
     = Inl LibraryError"
  using physical_capacity[of 10 "\<lambda>n. True" "0::nat" 0 "Num 1" "Num (- 1)" 0]
    physical_capacity[of 4 "\<lambda>n. True" "0::nat" 0 "Num 1" "Num (- 1)" 0]
    physical_capacity[of 2000000000 "\<lambda>n. True" "0::nat" 0 "Num 1" "Num (- 1)" 0]
    PrioritizedReplay_ex_new[of 10] PrioritizedReplay_ex_new[of 4]
  by (simp add: ex_new_def ex_empty_def)

text \<open>For the nominal capacity 10 the store has 12 slots, and the ceiling of 12.5
  is 13.\<close>

theorem physical_capacity_counterexample:
  "PrioritizedReplay (\<lambda>n. True) (0::nat) 10 0 (Num 1) (Num (- 1)) 0 = Inr (ex_new 10 12) \<and>
   capacity (storage_m (ex_new 10 12)) \<noteq> \<lceil>1.25 * real_of_int 10\<rceil>"
  using PrioritizedReplay_ex_new[of 10] by (simp add: ex_new_def ex_empty_def)

lemma tensor_pow_ex: "tensor_pow ex_pow t (Num 1) = t"
  by (simp add: tensor_pow_def ex_pow_def)

lemma add_ex_replay1:
  "add ex_pow (ex_new 4 5) [10, 11] (tensor1 [Num 1, Num 3]) = Inr ex_replay1"
  using block_append_ex_store1
  by (simp add: add_def tensor_pow_ex ex_new_def tensor1_def size0_def ex_replay1_def)

section \<open>size() reports the committed size (C9)\<close>

text \<open>
  Claim C9. \<^verbatim>\<open>PrioritizedReplay::size()\<close> is the committed \<open>safe_size\<close> of the store.
  In every reachable state of the store it is at most \<^verbatim>\<open>ConcurrentQueue::size()\<close>, and
  the difference is exactly the number of slots reserved by producers that have not
  committed yet.
\<close>

theorem size_replay_committed:
  assumes "cq_reach (storage_m P) ps"
  shows "size_replay P = safe_size_m (storage_m P) \<and>
         size_replay P \<le> size_queue (storage_m P) \<and>
         size_queue (storage_m P) - size_replay P = pending_total ps"
proof -
  from assms have "store_inv (storage_m P) ps" by (rule cq_reach_inv)
  from store_invD(5,9)[OF this] show ?thesis
    by (simp add: size_replay_def safe_size_def size_queue_def)
qed

theorem size_replay_committed_witness:
  "size_replay ex_replay2 = 2 \<and> size_queue (storage_m ex_replay2) = 3 \<and>
   pending_total [ex_pending] = 1"
proof -
  have "cq_reach (storage_m ex_replay2) [ex_pending]"
    using cq_reach_ex_store2 by (simp add: ex_replay2_def)
  from size_replay_committed[OF this] show ?thesis
    by (simp add: ex_replay2_def ex_store2_def ex_store1_def size_queue_def)
qed



section \<open>The scan of sample_\<close>

lemma smod_head_offset:
  assumes "0 < capacity q" "0 \<le> head_m q" "0 \<le> k"
  shows "(head_m q + k) smod capacity q = (head_m q + k) mod capacity q"
  using assms by (intro smod_nonneg) auto

lemma get_weight_slot:
  assumes "0 < capacity q" "0 \<le> head_m q"
  shows "get_weight q (int k) = (weights_m q ! slot_of q k, int (slot_of q k))"
proof -
  have "(head_m q + int k) smod capacity q = (head_m q + int k) mod capacity q"
    using assms by (intro smod_head_offset) auto
  moreover have "0 \<le> (head_m q + int k) mod capacity q" using assms(1) by simp
  ultimately show ?thesis by (simp add: get_weight_def slot_of_def Let_def)
qed

lemma get_element_and_mark_slot:
  assumes "0 < capacity q" "0 \<le> head_m q"
  shows "get_element_and_mark q (int k) =
     (elements_m q ! slot_of q k, q\<lparr>evicted_m := (evicted_m q)[slot_of q k := False]\<rparr>)"
proof -
  have "(head_m q + int k) smod capacity q = (head_m q + int k) mod capacity q"
    using assms by (intro smod_head_offset) auto
  then show ?thesis by (simp add: get_element_and_mark_def slot_of_def Let_def)
qed

lemma prefix_sum_0 [simp]: "prefix_sum q 0 = Num 0"
  by (simp add: prefix_sum_def)

lemma prefix_sum_Suc:
  "prefix_sum q (Suc m) = fadd binary64 (prefix_sum q m) (weights_m q ! slot_of q m)"
  by (simp add: prefix_sum_def)

lemma not_crossing_0 [simp]: "\<not> crossing q r 0"
  by (simp add: crossing_def fless_def)

lemma find_Some_mem: "List.find P xs = Some x \<Longrightarrow> x \<in> set xs \<and> P x"
  by (induction xs) (auto split: if_splits)

lemma scan_while_char:
  assumes c: "0 < capacity q" and h: "0 \<le> head_m q" and n: "int n \<le> sz"
  shows "scan_while q sz r (prefix_sum q n) (int n) w sid =
    (case List.find (crossing q r) [n..<Suc (nat sz)] of
       None \<Rightarrow> Inl AssertionFailure
     | Some m \<Rightarrow> Inr (True, prefix_sum q m, int m,
                     if m = n then w else weights_m q ! slot_of q (m - 1),
                     if m = n then sid else int (slot_of q (m - 1))))"
  using n
proof (induction "nat sz - n" arbitrary: n w sid)
  case 0
  with "0.prems" have e: "int n = sz" by simp
  then have "nat sz = n" by auto
  then have u: "[n..<Suc (nat sz)] = [n]" by (simp add: upt_rec)
  show ?case
  proof (cases "crossing q r n")
    case True
    then have "n \<noteq> 0" by (cases n) auto
    with True e u show ?thesis
      by (subst scan_while.simps) (simp add: crossing_def)
  next
    case False
    with e u show ?thesis
      by (subst scan_while.simps) (auto simp: crossing_def)
  qed
next
  case (Suc k)
  then have lt: "int n < sz" by simp
  then have "n < Suc (nat sz)" by simp
  then have u: "[n..<Suc (nat sz)] = n # [Suc n..<Suc (nat sz)]" by (rule upt_conv_Cons)
  show ?case
  proof (cases "crossing q r n")
    case True
    then have "n \<noteq> 0" by (cases n) auto
    with True lt u show ?thesis
      by (subst scan_while.simps) (simp add: crossing_def)
  next
    case False
    have k: "k = nat sz - Suc n" using Suc.hyps(2) by simp
    have le: "int (Suc n) \<le> sz" using lt by simp
    note IH = Suc.hyps(1)[OF k le, of "weights_m q ! slot_of q n" "int (slot_of q n)"]
    have step: "scan_while q sz r (prefix_sum q n) (int n) w sid =
        scan_while q sz r (prefix_sum q (Suc n)) (int (Suc n))
          (weights_m q ! slot_of q n) (int (slot_of q n))"
      using False lt
      by (subst scan_while.simps)
         (auto simp: crossing_def get_weight_slot[OF c h] prefix_sum_Suc add.commute)
    have gt: "m \<noteq> n \<and> (m = Suc n \<longrightarrow> m - 1 = n)"
      if "List.find (crossing q r) [Suc n..<Suc (nat sz)] = Some m" for m
    proof -
      from find_Some_mem[OF that] have "m \<in> set [Suc n..<Suc (nat sz)]" by blast
      then have "Suc n \<le> m" by (simp del: upt_Suc)
      then show ?thesis by auto
    qed
    show ?thesis
      unfolding step IH u using False gt
      by (auto split: option.splits)
  qed
qed

lemma slot_of_evicted [simp]: "slot_of (q\<lparr>evicted_m := E\<rparr>) k = slot_of q k"
  by (simp add: slot_of_def)

lemma prefix_sum_evicted [simp]: "prefix_sum (q\<lparr>evicted_m := E\<rparr>) m = prefix_sum q m"
  by (simp add: prefix_sum_def)

lemma crossing_evicted [simp]: "crossing (q\<lparr>evicted_m := E\<rparr>) r m = crossing q r m"
  by (simp add: crossing_def)

lemma crossing_pos: "crossing q r m \<Longrightarrow> 1 \<le> m"
  by (cases m) auto

lemma scan_invD:
  assumes "scan_inv q sz st"
  shows "store st = q\<lparr>evicted_m := evicted_m (store st)\<rparr>"
    "0 \<le> next_idx st" "next_idx st \<le> sz"
    "acc_sum st = prefix_sum q (nat (next_idx st))"
    "1 \<le> next_idx st \<Longrightarrow> w_cur st = weights_m q ! slot_of q (nat (next_idx st) - 1)"
    "1 \<le> next_idx st \<Longrightarrow> id_cur st = int (slot_of q (nat (next_idx st) - 1))"
  using assms unfolding scan_inv_def by blast+

lemma scan_inv_hit:
  assumes inv: "scan_inv q sz st" and m: "1 \<le> m" "int m \<le> sz"
  shows "scan_inv q sz (scan_hit q st i m)"
proof -
  note d = scan_invD[OF inv]
  have "store (scan_hit q st i m)
      = (store st)\<lparr>evicted_m := (evicted_m (store st))[slot_of q (m - 1) := False]\<rparr>"
    by (simp add: scan_hit_def)
  also have "\<dots> = (q\<lparr>evicted_m := evicted_m (store st)\<rparr>)
      \<lparr>evicted_m := (evicted_m (store st))[slot_of q (m - 1) := False]\<rparr>"
    using d(1) by simp
  finally have s: "store (scan_hit q st i m)
      = q\<lparr>evicted_m := (evicted_m (store st))[slot_of q (m - 1) := False]\<rparr>" by simp
  have e: "evicted_m (store (scan_hit q st i m)) = (evicted_m (store st))[slot_of q (m - 1) := False]"
    by (simp add: scan_hit_def)
  show ?thesis
    unfolding scan_inv_def e
    using s m by (simp add: scan_hit_def)
qed

lemma scan_for_Cons:
  assumes c: "0 < capacity q" and h: "0 \<le> head_m q" and inv: "scan_inv q sz st"
  shows "scan_for sz sm seg draw (i # js) st =
     (case List.find (crossing q (rand_of sm seg draw i)) [nat (next_idx st)..<Suc (nat sz)] of
        None \<Rightarrow> Inl AssertionFailure
      | Some m \<Rightarrow> scan_for sz sm seg draw js (scan_hit q st i m))"
proof -
  note d = scan_invD[OF inv]
  let ?q = "store st" and ?n = "nat (next_idx st)" and ?r = "rand_of sm seg draw i"
  obtain E where q': "?q = q\<lparr>evicted_m := E\<rparr>" using d(1) by blast
  have c': "0 < capacity ?q" and h': "0 \<le> head_m ?q" using c h by (simp_all add: q')
  have n: "int ?n \<le> sz" and nn: "int ?n = next_idx st" using d(2,3) by simp_all
  have eqs: "crossing ?q ?r = crossing q ?r" "prefix_sum ?q = prefix_sum q"
    "slot_of ?q = slot_of q" "weights_m ?q = weights_m q"
    by (simp_all add: q' fun_eq_iff)
  note sw = scan_while_char[OF c' h' n, of ?r "w_cur st" "id_cur st",
      unfolded eqs nn, folded d(4)]
  show ?thesis
  proof (cases "List.find (crossing q ?r) [?n..<Suc (nat sz)]")
    case None
    with sw show ?thesis by simp
  next
    case (Some m)
    from find_Some_mem[OF Some] have cr: "crossing q ?r m" by blast
    then have m1: "1 \<le> m" by (rule crossing_pos)
    define k where "k = m - 1"
    have k1: "m - Suc 0 = k" by (simp add: k_def)
    have im: "int m - 1 = int k" using m1 by (simp add: k_def)
    have w: "(if m = ?n then w_cur st else weights_m q ! slot_of q (m - 1))
        = weights_m q ! slot_of q k"
      using d(5) m1 by (auto simp: k_def)
    have sid: "(if m = ?n then id_cur st else int (slot_of q (m - 1)))
        = int (slot_of q k)"
      using d(6) m1 by (auto simp: k_def)
    have "get_element_and_mark ?q (int k) =
       (elements_m ?q ! slot_of ?q k,
        ?q\<lparr>evicted_m := (evicted_m ?q)[slot_of ?q k := False]\<rparr>)"
      using c' h' by (rule get_element_and_mark_slot)
    then have gm: "get_element_and_mark ?q (int k) =
       (elements_m q ! slot_of q k,
        ?q\<lparr>evicted_m := (evicted_m ?q)[slot_of q k := False]\<rparr>)"
      unfolding eqs by (simp add: q')
    from sw Some have sw': "scan_while ?q sz ?r (acc_sum st) (next_idx st) (w_cur st) (id_cur st)
        = Inr (True, prefix_sum q m, int m, weights_m q ! slot_of q k, int (slot_of q k))"
      by (simp only: w sid option.case)
    show ?thesis
      unfolding Some option.case scan_hit_def k1
      by (simp only: scan_for.simps sw' im gm) (simp add: Let_def k1 im gm)
  qed
qed


lemma scan_for_step:
  assumes c: "0 < capacity q" and h: "0 \<le> head_m q" and inv: "scan_inv q sz st"
    and ok: "scan_for sz sm seg draw (i # js) st = Inr st'"
  obtains m where
    "List.find (crossing q (rand_of sm seg draw i)) [nat (next_idx st)..<Suc (nat sz)] = Some m"
    "scan_for sz sm seg draw js (scan_hit q st i m) = Inr st'"
    "nat (next_idx st) \<le> m" "int m \<le> sz" "1 \<le> m" "crossing q (rand_of sm seg draw i) m"
    "scan_inv q sz (scan_hit q st i m)"
proof -
  let ?f = "List.find (crossing q (rand_of sm seg draw i)) [nat (next_idx st)..<Suc (nat sz)]"
  from ok scan_for_Cons[OF c h inv, of sm seg draw i js]
  obtain m where f: "?f = Some m"
    and r: "scan_for sz sm seg draw js (scan_hit q st i m) = Inr st'"
    by (cases ?f) auto
  from find_Some_mem[OF f]
  have mem: "m \<in> set [nat (next_idx st)..<Suc (nat sz)]"
    and cr: "crossing q (rand_of sm seg draw i) m" by blast+
  from mem have lo: "nat (next_idx st) \<le> m" and hi: "m \<le> nat sz" by (simp_all del: upt_Suc)
  from cr have m1: "1 \<le> m" by (rule crossing_pos)
  from hi m1 have hi': "int m \<le> sz" by linarith
  from inv m1 hi' have "scan_inv q sz (scan_hit q st i m)" by (rule scan_inv_hit)
  with f r lo hi' m1 cr show thesis by (rule that)
qed

lemma scan_for_master:
  assumes c: "0 < capacity q" and h: "0 \<le> head_m q"
  shows "scan_inv q sz st \<Longrightarrow> scan_for sz sm seg draw js st = Inr st' \<Longrightarrow>
    scan_inv q sz st' \<and> next_idx st \<le> next_idx st' \<and>
    length (weight_acc st') = length (weight_acc st) \<and>
    length (ids_acc st') = length (ids_acc st) \<and>
    length (samples st') = length (samples st) + length js \<and>
    take (length (samples st)) (samples st') = samples st \<and>
    length (evicted_m (store st')) = length (evicted_m (store st)) \<and>
    (\<forall>k. k \<notin> set js \<longrightarrow>
       weight_acc st' ! k = weight_acc st ! k \<and> ids_acc st' ! k = ids_acc st ! k)"
proof (induction js arbitrary: st)
  case Nil
  then show ?case by simp
next
  case (Cons i js)
  from Cons.prems obtain m where
    r: "scan_for sz sm seg draw js (scan_hit q st i m) = Inr st'"
    and lo: "nat (next_idx st) \<le> m"
    and inv1: "scan_inv q sz (scan_hit q st i m)"
    by (rule scan_for_step[OF c h])
  let ?st1 = "scan_hit q st i m"
  note IH = Cons.IH[OF inv1 r]
  have n1: "next_idx st \<le> next_idx ?st1" using lo by (simp add: scan_hit_def)
  have l1: "length (weight_acc ?st1) = length (weight_acc st)"
    "length (ids_acc ?st1) = length (ids_acc st)"
    "length (samples ?st1) = Suc (length (samples st))"
    "length (evicted_m (store ?st1)) = length (evicted_m (store st))"
    by (simp_all add: scan_hit_def)
  have s1: "take (length (samples st)) (samples ?st1) = samples st"
    by (simp add: scan_hit_def)
  have "take (length (samples st)) (samples st')
      = take (length (samples st)) (take (length (samples ?st1)) (samples st'))"
    by (simp add: l1 min_def)
  also have "\<dots> = samples st" using IH s1 by simp
  finally have tk: "take (length (samples st)) (samples st') = samples st" .
  have un: "weight_acc st' ! k = weight_acc st ! k \<and> ids_acc st' ! k = ids_acc st ! k"
    if "k \<notin> set (i # js)" for k
  proof -
    from that have "k \<notin> set js" "k \<noteq> i" by auto
    with IH have "weight_acc st' ! k = weight_acc ?st1 ! k" "ids_acc st' ! k = ids_acc ?st1 ! k"
      by blast+
    with \<open>k \<noteq> i\<close> show ?thesis by (simp add: scan_hit_def)
  qed
  from IH n1 l1 tk un show ?case by simp
qed







section \<open>Stratified draws and the selected slots (C4)\<close>

lemma scan_upto_eq:
  "scan_upto P b draw k =
     scan_for (safe_size_m (storage_m P)) (sum_snapshot P)
       (fdiv binary32 (sum_snapshot P) (of_int_format binary32 b)) draw [0..<k] (scan_init P b)"
  by (simp add: scan_upto_def safe_size_def sum_snapshot_def)

lemma scan_inv_init:
  assumes "0 \<le> safe_size_m (storage_m P)"
  shows "scan_inv (storage_m P) (safe_size_m (storage_m P)) (scan_init P b)"
  using assms by (simp add: scan_inv_def scan_init_def)

lemma sample_scan_Inr:
  assumes "sample_scan P b draw = Inr st"
  shows "0 \<le> b" "scan_upto P b draw (nat b) = Inr st" "int (length (samples st)) = b"
  using assms by (auto simp: sample_scan_def split: if_splits sum.splits)



lemma float_0_2_eq: "float_0_2 = Num (13421773 / 67108864)"
  by (simp add: float_0_2_def ieee_eval)

lemma rand_of_ex1:
  "rand_of (Num 4) (Num 2) (\<lambda>i. Num 1) 0 = Num 1"
  "rand_of (Num 4) (Num 2) (\<lambda>i. Num 1) (Suc 0) = Num 3"
  by (simp_all add: rand_of_def float_0_2_eq ieee_eval)

lemmas scan_eval =
  sample_scan_def scan_upto_def scan_init_def safe_size_def
  scan_while.simps get_weight_def get_element_and_mark_def upt_rec
  eval_nat_numeral Let_def num_eval


lemma sample_scan_ex2: "sample_scan ex_replay2 2 (\<lambda>i. Num 1) = Inr ex_scan2"
  by (simp add: scan_eval rand_of_ex1 ex_replay2_def ex_replay1_def ex_store2_def ex_store1_def
      ex_scan2_def ex_scan1_def)











lemma weights_ex_small:
  "fdiv binary32 (Num (9007199 / 9007199254740992)) (Num (13421773 / 67108864))
     = Num (11258999 / 2251799813685248)"
  "fmul binary32 (of_int_format binary32 2) (Num (11258999 / 2251799813685248))
     = Num (11258999 / 1125899906842624)"
  "fdiv binary32 (Num (11258999 / 1125899906842624)) (Num (11258999 / 1125899906842624))
     = Num 1"
  "to_format binary32 (Num (13421773 / 67108864)) = Num (13421773 / 67108864)"
  "fadd binary64 (Num 0) (Num (9007199 / 9007199254740992)) = Num (9007199 / 9007199254740992)"
  by (simp_all add: ieee_eval)




lemma first_crossing_from_ex_small:
  "first_crossing_from (storage_m ex_replay_small) (safe_size_m (storage_m ex_replay_small))
     (Num 0) 0 = Some 1"
  "first_crossing_from (storage_m ex_replay_small) (safe_size_m (storage_m ex_replay_small))
     (Num 0) 1 = Some 1"
  by (simp_all add: first_crossing_from_def crossing_def prefix_sum_def slot_of_def upt_rec
      ex_replay_small_def ex_store_small_def fless_Num fle_Num weights_ex_small)


section \<open>block_pop and the eviction at the end of sample_ (C7)\<close>

lemma slot_of_bounds:
  assumes "0 < capacity q"
  shows "int (slot_of q k) = (head_m q + int k) mod capacity q" "slot_of q k < nat (capacity q)"
proof -
  from assms have "0 \<le> (head_m q + int k) mod capacity q"
    "(head_m q + int k) mod capacity q < capacity q" by simp_all
  then show "int (slot_of q k) = (head_m q + int k) mod capacity q"
    "slot_of q k < nat (capacity q)"
    by (simp_all add: slot_of_def)
qed

lemma slot_of_0:
  assumes "0 \<le> head_m q" "head_m q < capacity q"
  shows "int (slot_of q 0) = head_m q"
  using assms by (simp add: slot_of_def)

lemma slot_of_Suc_smod:
  assumes c: "0 < capacity q"
  shows "(int (slot_of q k) + 1) smod capacity q = int (slot_of q (Suc k))"
proof -
  have "(int (slot_of q k) + 1) smod capacity q = (int (slot_of q k) + 1) mod capacity q"
    using c by (intro smod_nonneg) auto
  also have "\<dots> = ((head_m q + int k) mod capacity q + 1) mod capacity q"
    by (simp only: slot_of_bounds(1)[OF c])
  also have "\<dots> = (head_m q + int k + 1) mod capacity q" by (rule mod_add_left_eq)
  also have "\<dots> = int (slot_of q (Suc k))"
    by (simp add: slot_of_bounds(1)[OF c] algebra_simps)
  finally show ?thesis .
qed

lemma pop_loop_char:
  assumes c: "0 < capacity q"
  shows "pop_loop (capacity q) (weights_m q) n diff (int (slot_of q k)) E =
     (fold (\<lambda>i d. fsub binary64 d (weights_m q ! slot_of q i)) [k..<k + n] diff,
      int (slot_of q (k + n)),
      fold (\<lambda>i E. E[slot_of q i := True]) [k..<k + n] E)"
proof (induction n arbitrary: k diff E)
  case 0
  then show ?case by simp
next
  case (Suc n)
  have u: "[k..<k + Suc n] = k # [Suc k..<Suc k + n]"
    by (simp add: upt_conv_Cons)
  show ?case
    unfolding u
    by (simp only: pop_loop.simps slot_of_Suc_smod[OF c] nat_int Suc.IH)
       simp
qed

lemma fold_mark_length [simp]:
  "length (fold (\<lambda>i E. E[f i := v]) xs E) = length E"
  by (induction xs arbitrary: E) simp_all

lemma list_update_True_nth:
  "j < length E \<Longrightarrow> E[k := True] ! j = (E ! j \<or> j = k)"
  by (cases "k = j") auto

lemma fold_mark_nth:
  "j < length E \<Longrightarrow>
     fold (\<lambda>i E. E[f i := True]) xs E ! j = (E ! j \<or> j \<in> f ` set xs)"
  by (induction xs arbitrary: E) (auto simp: list_update_True_nth)

lemma block_pop_char:
  assumes inv: "store_inv q ps" and n: "0 \<le> n" "n \<le> safe_size_m q"
  shows "block_pop q n =
     Inr (q\<lparr>evicted_m := fold (\<lambda>i E. E[slot_of q i := True]) [0..<nat n] (evicted_m q),
            sum_m := fadd binary64 (sum_m q) (pop_diff q (nat n)),
            head_m := int (slot_of q (nat n)),
            safe_size_m := safe_size_m q - n, size_m := size_m q - n\<rparr>)"
proof -
  note d = store_invD[OF inv]
  let ?c = "capacity q"
  have h0: "head_m q = int (slot_of q 0)" using slot_of_0[OF d(2,3)] by simp
  have pl: "pop_loop ?c (weights_m q) (nat n) (Num 0) (head_m q) (evicted_m q) =
     (pop_diff q (nat n), int (slot_of q (nat n)),
      fold (\<lambda>i E. E[slot_of q i := True]) [0..<nat n] (evicted_m q))"
    using pop_loop_char[OF d(1), of "nat n" "Num 0" 0 "evicted_m q"]
    by (simp add: h0[symmetric] pop_diff_def)
  let ?h' = "int (slot_of q (nat n))"
  have h': "?h' = (head_m q + n) mod ?c" using n by (simp add: slot_of_bounds(1)[OF d(1)])
  have hb: "0 \<le> ?h'" "?h' < ?c" using d(1) by (simp_all add: h')
  have "(?h' + (safe_size_m q - n)) mod ?c = (head_m q + n + (safe_size_m q - n)) mod ?c"
    unfolding h' by (rule mod_add_left_eq)
  then have st: "(?h' + (safe_size_m q - n)) mod ?c = safe_tail_m q" using d(8) by simp
  let ?q' = "q\<lparr>evicted_m := fold (\<lambda>i E. E[slot_of q i := True]) [0..<nat n] (evicted_m q),
            sum_m := fadd binary64 (sum_m q) (pop_diff q (nat n)),
            head_m := ?h',
            safe_size_m := safe_size_m q - n, size_m := size_m q - n\<rparr>"
  have cq': "capacity ?q' = ?c" by simp
  have p: "0 < capacity ?q'" "?h' < capacity ?q'" "safe_size_m q - n \<le> capacity ?q'"
    using d(1,4,5,6) hb n by simp_all
  have p0: "0 \<le> safe_size_m q - n" using n by simp
  have "check_size ?q' ?h' ((?h' + (safe_size_m q - n)) mod capacity ?q') (safe_size_m q - n)"
    using p(1) hb(1) p(2) p0 p(3) by (rule check_size_complete)
  then have chk: "check_size ?q' ?h' (safe_tail_m q) (safe_size_m q - n)"
    unfolding cq' st .
  show ?thesis
    unfolding block_pop_def pl using chk n by (simp add: Let_def)
qed

lemma block_pop_Inr_le: "block_pop q n = Inr q' \<Longrightarrow> n \<le> safe_size_m q"
  by (auto simp: block_pop_def Let_def split: prod.splits if_splits)

lemma block_pop_overdrawn:
  assumes "safe_size_m q < n"
  shows "block_pop q n = Inl AssertionFailure"
  using assms by (simp add: block_pop_def Let_def split: prod.splits)

lemma store_inv_evicted:
  assumes inv: "store_inv q ps" and len: "length E = length (evicted_m q)"
  shows "store_inv (q\<lparr>evicted_m := E\<rparr>) ps"
proof -
  note d = store_invD[OF inv]
  show ?thesis
    by (rule store_invI) (use d len in simp_all)
qed

lemma sample_m_Inr:
  assumes "sample_m pw pack dok P b dev draw = Inr (r, P')"
  obtains st q' where "sample_scan P b draw = Inr st"
    "if size_m (store st) > capacity_m P
     then block_pop (store st) (size_m (store st) - capacity_m P) = Inr q'
     else q' = store st"
    "weight_acc st \<noteq> []"
    "r = (pack (samples st), div_max (sample_scaled pw P st), ids_acc st)"
    "P' = P\<lparr>storage_m := q'\<rparr>"
proof -
  from assms obtain st where st: "sample_scan P b draw = Inr st"
    by (cases "sample_scan P b draw") (auto simp: sample_m_def)
  let ?sz = "sample_size_reread st"
  let ?pop = "if ?sz > capacity_m P then block_pop (store st) (?sz - capacity_m P)
              else Inr (store st)"
  from assms st obtain q' where q': "?pop = Inr q'"
    by (cases ?pop) (auto simp: sample_m_def Let_def)
  from assms st q' have w: "weight_acc st \<noteq> []"
    and r: "r = (pack (samples st), div_max (sample_scaled pw P st), ids_acc st)"
    and P': "P' = P\<lparr>storage_m := q'\<rparr>"
    by (auto simp: sample_m_def Let_def split: if_splits)
  from q' have pf: "if size_m (store st) > capacity_m P
     then block_pop (store st) (size_m (store st) - capacity_m P) = Inr q'
     else q' = store st"
    by (auto simp: sample_size_reread_def size_queue_def split: if_splits)
  from st pf w r P' show thesis by (rule that)
qed

lemma sample_scan_state:
  assumes inv: "store_inv (storage_m P) ps" and ok: "sample_scan P b draw = Inr st"
  shows "scan_inv (storage_m P) (safe_size_m (storage_m P)) st"
    "length (weight_acc st) = nat b" "length (ids_acc st) = nat b"
    "length (samples st) = nat b"
    "length (evicted_m (store st)) = length (evicted_m (storage_m P))"
proof -
  note d = store_invD[OF inv]
  note okd = sample_scan_Inr[OF ok]
  from okd(2) have run: "scan_for (safe_size_m (storage_m P)) (sum_snapshot P)
      (fdiv binary32 (sum_snapshot P) (of_int_format binary32 b)) draw [0..<nat b]
      (scan_init P b) = Inr st"
    by (simp add: scan_upto_eq)
  note M = scan_for_master[OF d(1,2) scan_inv_init[OF d(4)] run]
  from M show "scan_inv (storage_m P) (safe_size_m (storage_m P)) st" by blast
  from M show "length (weight_acc st) = nat b" "length (ids_acc st) = nat b"
    "length (samples st) = nat b"
    "length (evicted_m (store st)) = length (evicted_m (storage_m P))"
    by (simp_all add: scan_init_def)
qed

lemma block_append_frame:
  assumes "block_append q xs ws = Inr q'"
  shows "head_m q' = head_m q" "evicted_m q' = evicted_m q" "capacity q' = capacity q"
    "size_m q' = size_m q + int (length xs)"
    "safe_size_m q' = safe_size_m q + int (length xs)"
proof -
  from assms obtain q1 start fin where
    res: "block_append_reserve q (int (length xs)) = Inr (q1, start, fin)"
    by (auto simp: block_append_def split: sum.splits)
  with assms obtain q2 s where cp: "block_append_copy q1 start xs ws = Inr (q2, s)"
    and cm: "block_append_commit q2 start fin (int (length xs)) s = Inr q'"
    by (auto simp: block_append_def split: sum.splits)
  from res have q1: "q1 = q\<lparr>tail_m := fin, size_m := size_m q + int (length xs)\<rparr>"
    by (auto simp: block_append_reserve_def Let_def split: if_splits)
  from cp obtain E W where q2: "q2 = q1\<lparr>elements_m := E, weights_m := W\<rparr>"
    by (auto simp: block_append_copy_def split: if_splits prod.splits)
  from cm have q': "q' = q2\<lparr>safe_tail_m := fin,
      safe_size_m := safe_size_m q2 + int (length xs),
      sum_m := fadd binary64 (sum_m q2) s\<rparr>"
    by (auto simp: block_append_commit_def Let_def split: if_splits)
  show "head_m q' = head_m q" "evicted_m q' = evicted_m q" "capacity q' = capacity q"
    "size_m q' = size_m q + int (length xs)"
    "safe_size_m q' = safe_size_m q + int (length xs)"
    by (simp_all add: q' q2 q1)
qed

lemma update_frame:
  "head_m (update q ids ws) = head_m q" "evicted_m (update q ids ws) = evicted_m q"
  "size_m (update q ids ws) = size_m q" "safe_size_m (update q ids ws) = safe_size_m q"
  "capacity (update q ids ws) = capacity q"
  by (simp_all add: update_def split: prod.splits)

text \<open>When \<^verbatim>\<open>sample_\<close> returns on a well-formed store and the reserved size \<open>s\<close>
  read after the scan exceeds the nominal capacity \<open>c\<close>, the head has advanced by exactly
  \<open>s - c\<close> slots, these slots are flagged evicted, the committed size has dropped by
  \<open>s - c\<close> and the reserved size is \<open>c\<close>; otherwise head and sizes are unchanged. The
  other operations of the priority path (\<^verbatim>\<open>add\<close>, \<^verbatim>\<open>update_priority\<close>,
  \<^verbatim>\<open>keep_priority\<close>) leave the head and the evicted flags as they are and do not lower
  the reserved size.\<close>

lemma sample_pop_exact:
  assumes inv: "store_inv (storage_m P) ps"
    and ok: "sample_m pw pack dok P b dev draw = Inr (r, P')"
  shows "(capacity_m P < size_m (storage_m P) \<longrightarrow>
            size_m (storage_m P') = capacity_m P \<and>
            head_m (storage_m P')
              = (head_m (storage_m P) + (size_m (storage_m P) - capacity_m P))
                  mod capacity (storage_m P) \<and>
            safe_size_m (storage_m P')
              = safe_size_m (storage_m P) - (size_m (storage_m P) - capacity_m P) \<and>
            (\<forall>i < nat (size_m (storage_m P) - capacity_m P).
               evicted_m (storage_m P') ! slot_of (storage_m P) i)) \<and>
         (size_m (storage_m P) \<le> capacity_m P \<longrightarrow>
            size_m (storage_m P') = size_m (storage_m P) \<and>
            head_m (storage_m P') = head_m (storage_m P) \<and>
            safe_size_m (storage_m P') = safe_size_m (storage_m P)) \<and>
         (\<forall>xs t P1. add pw P xs t = Inr P1 \<longrightarrow>
            head_m (storage_m P1) = head_m (storage_m P) \<and>
            evicted_m (storage_m P1) = evicted_m (storage_m P) \<and>
            size_m (storage_m P) \<le> size_m (storage_m P1)) \<and>
         (\<forall>t P2. update_priority pw P t = Inr P2 \<longrightarrow>
            head_m (storage_m P2) = head_m (storage_m P) \<and>
            evicted_m (storage_m P2) = evicted_m (storage_m P) \<and>
            size_m (storage_m P2) = size_m (storage_m P)) \<and>
         storage_m (keep_priority P) = storage_m P"
proof -
  let ?q = "storage_m P"
  let ?n = "size_m ?q - capacity_m P"
  note d = store_invD[OF inv]
  from ok obtain st q' where st: "sample_scan P b draw = Inr st"
    and pop: "if size_m (store st) > capacity_m P
       then block_pop (store st) (size_m (store st) - capacity_m P) = Inr q'
       else q' = store st"
    and P': "P' = P\<lparr>storage_m := q'\<rparr>"
    by (rule sample_m_Inr)
  note S = sample_scan_state[OF inv st]
  from scan_invD(1)[OF S(1)] have se: "store st = ?q\<lparr>evicted_m := evicted_m (store st)\<rparr>" .
  have sz: "size_m (store st) = size_m ?q" and hd: "head_m (store st) = head_m ?q"
    and ss: "safe_size_m (store st) = safe_size_m ?q" and cp: "capacity (store st) = capacity ?q"
    by (subst se, simp)+
  have sl: "slot_of (store st) = slot_of ?q"
    by (subst se) (simp add: fun_eq_iff)
  have inv': "store_inv (store st) ps"
    by (subst se) (rule store_inv_evicted[OF inv S(5)])
  have big: "size_m q' = capacity_m P \<and>
      head_m q' = (head_m ?q + ?n) mod capacity ?q \<and>
      safe_size_m q' = safe_size_m ?q - ?n \<and>
      (\<forall>i < nat ?n. evicted_m q' ! slot_of ?q i)"
    if gt: "capacity_m P < size_m ?q"
  proof -
    from pop gt have bp: "block_pop (store st) ?n = Inr q'" by (simp add: sz)
    from gt have n0: "0 \<le> ?n" by simp
    from block_pop_Inr_le[OF bp] have nle: "?n \<le> safe_size_m (store st)" .
    from block_pop_char[OF inv' n0 nle] bp
    have q': "q' = (store st)\<lparr>evicted_m :=
          fold (\<lambda>i E. E[slot_of ?q i := True]) [0..<nat ?n] (evicted_m (store st)),
        sum_m := fadd binary64 (sum_m (store st)) (pop_diff (store st) (nat ?n)),
        head_m := int (slot_of ?q (nat ?n)),
        safe_size_m := safe_size_m (store st) - ?n, size_m := size_m (store st) - ?n\<rparr>"
      by (simp add: sl)
    have hq: "int (slot_of ?q (nat ?n)) = (head_m ?q + ?n) mod capacity ?q"
      using n0 by (simp add: slot_of_bounds(1)[OF d(1)])
    have ev: "evicted_m q' ! slot_of ?q i" if "i < nat ?n" for i
    proof -
      have "slot_of ?q i < length (evicted_m (store st))"
        using slot_of_bounds(2)[OF d(1), of i] S(5) d(11) by simp
      from fold_mark_nth[OF this, of "slot_of ?q" "[0..<nat ?n]"] that
      show ?thesis by (simp add: q')
    qed
    from ev hq show ?thesis by (simp add: q' sz ss)
  qed
  have small: "size_m q' = size_m ?q \<and> head_m q' = head_m ?q \<and>
      safe_size_m q' = safe_size_m ?q"
    if "size_m ?q \<le> capacity_m P"
    using pop that by (simp add: sz hd ss)
  have ad: "head_m (storage_m P1) = head_m ?q \<and> evicted_m (storage_m P1) = evicted_m ?q \<and>
      size_m ?q \<le> size_m (storage_m P1)"
    if "add pw P xs t = Inr P1" for xs t P1
  proof -
    from that obtain qa where
      ba: "block_append ?q xs (t_data (tensor_pow pw t (alpha_m P))) = Inr qa"
      and P1: "storage_m P1 = qa"
      by (auto simp: add_def Let_def split: if_splits sum.splits)
    from block_append_frame[OF ba] P1 show ?thesis by simp
  qed
  have up: "head_m (storage_m P2) = head_m ?q \<and> evicted_m (storage_m P2) = evicted_m ?q \<and>
      size_m (storage_m P2) = size_m ?q"
    if "update_priority pw P t = Inr P2" for t P2
    using that by (auto simp: update_priority_def Let_def update_frame split: if_splits)
  have kp: "storage_m (keep_priority P) = storage_m P" by (simp add: keep_priority_def)
  from big small ad up kp show ?thesis unfolding P' by simp
qed


text \<open>The pop at the end of \<^verbatim>\<open>sample_\<close> takes its count from the reserved size. When
  producers hold more reserved, uncommitted slots than the nominal capacity leaves room
  for, the count exceeds the committed size and the assertion of \<^verbatim>\<open>block_pop\<close> on
  \<^verbatim>\<open>safe_size_\<close> fails.\<close>

lemma sample_m_overdrawn:
  assumes inv: "store_inv (storage_m P) ps"
    and st: "sample_scan P b draw = Inr st"
    and gt: "capacity_m P < size_m (storage_m P)"
    and ov: "safe_size_m (storage_m P) < size_m (storage_m P) - capacity_m P"
  shows "sample_m pw pack dok P b dev draw = Inl AssertionFailure"
proof -
  note S = sample_scan_state[OF inv st]
  from scan_invD(1)[OF S(1)]
  have se: "store st = (storage_m P)\<lparr>evicted_m := evicted_m (store st)\<rparr>" .
  have sz: "size_m (store st) = size_m (storage_m P)"
    and ss: "safe_size_m (store st) = safe_size_m (storage_m P)"
    by (subst se, simp)+
  from ov have "block_pop (store st) (size_m (storage_m P) - capacity_m P)
      = Inl AssertionFailure"
    by (intro block_pop_overdrawn) (simp add: ss)
  with gt show ?thesis
    by (simp add: sample_m_def st sample_size_reread_def size_queue_def sz)
qed

lemma store_inv_ex_replay5: "store_inv (storage_m ex_replay5) []"
  by (simp add: store_inv_def ex_replay5_def ex_store5_def pending_total_def)

lemmas sample_eval =
  sample_m_def sample_size_reread_def size_queue_def sample_scaled_def scale_pow_def
  div_scalar_def div_max_def tensor_max_def block_pop_def check_size_def

lemma rand_of_ex5: "rand_of (Num 5) (Num 5) (\<lambda>i. Num 1) 0 = Num 1"
  by (simp add: rand_of_def float_0_2_eq ieee_eval)

lemma rnd_one_fifth:
  "rnd binary32 (1 / 5) = Num (13421773 / 67108864)"
  "rnd binary32 (67108865 / 67108864) = Num 1"
  by (simp_all add: ieee_eval)

lemma sample_m_ex5:
  "sample_m ex_pow sum_list (\<lambda>dev. True) ex_replay5 1 ''cpu'' (\<lambda>i. Num 1)
     = Inr ((10, [Num 1], [0]), ex_replay5\<lparr>storage_m := ex_store5_popped\<rparr>)"
  by (simp add: sample_eval scan_eval rand_of_ex5 rnd_one_fifth ex_pow_def
      ex_replay5_def ex_store5_def ex_store5_popped_def)

text \<open>An instance: nominal capacity 4, five committed records in the five slots. One
  sample pops the slot at the head.\<close>

lemma sample_pop_exact_ex5:
  "size_m ex_store5 = 5 \<and> capacity_m ex_replay5 = 4 \<and>
   size_m ex_store5_popped = 4 \<and> head_m ex_store5_popped = 1 \<and>
   safe_size_m ex_store5_popped = 4 \<and> evicted_m ex_store5_popped ! 0"
  using sample_pop_exact[OF store_inv_ex_replay5 sample_m_ex5]
  by (simp add: ex_replay5_def ex_store5_def slot_of_def)

lemma add_ex_store8:
  "add ex_pow (ex_new 8 10) [10] (tensor1 [Num 1]) = Inr (ex_replay8\<lparr>storage_m := ex_store8\<rparr>)"
  by (simp add: add_def tensor_pow_ex tensor1_def size0_def ex_new_def ex_empty_def
      ex_replay8_def ex_store8_def block_append_def block_append_reserve_def
      block_append_copy_def block_append_commit_def check_size_def numeral_eq_Suc Let_def
      num_eval)

lemma reserve_ex_store8:
  "block_append_reserve ex_store8 (int (length (p_block ex_pending9)))
     = Inr (ex_store8_reserved, 1, 0)"
  by (simp add: block_append_reserve_def ex_store8_def ex_store8_reserved_def ex_pending9_def
      check_size_def Let_def)

lemma cq_reach_ex_store8: "cq_reach ex_store8 []"
proof -
  have "cq_reach (ex_empty 10) []" by (rule cq_reach_ex_empty) simp
  moreover have "block_append (ex_empty 10) [10] [Num 1] = Inr ex_store8"
    using add_ex_store8
    by (simp add: add_def tensor_pow_ex tensor1_def size0_def ex_new_def ex_replay8_def
        split: sum.splits)
  ultimately show ?thesis by (rule cq_reach_block_append)
qed

lemma cq_reach_ex_store8_reserved: "cq_reach ex_store8_reserved [ex_pending9]"
proof -
  from cq_reach.reserve[OF cq_reach_ex_store8 reserve_ex_store8, of "replicate 9 (Num 1)"]
  show ?thesis by (simp add: ex_pending9_def)
qed

lemma rand_of_ex8: "rand_of (Num 1) (Num 1) (\<lambda>i. Num (1 / 2)) 0 = Num (1 / 2)"
  by (simp add: rand_of_def float_0_2_eq ieee_eval)

lemma sample_scan_ex8: "sample_scan ex_replay8 1 (\<lambda>i. Num (1 / 2)) = Inr ex_scan8"
  by (simp add: scan_eval rand_of_ex8 ex_replay8_def ex_store8_reserved_def ex_store8_def
      ex_scan8_def)

text \<open>
  Claim C7, at an input where the code departs from it. Nominal capacity 8, hence 10
  slots; one record is committed and a producer inside \<^verbatim>\<open>block_append\<close> has reserved
  the other nine slots and not committed them yet. The scan of a sample of one record
  succeeds; the reserved size 10 exceeds the nominal capacity, \<^verbatim>\<open>block_pop(2)\<close> is
  called on a committed size of 1 and its assertion \<^verbatim>\<open>safe_size_ >= 0\<close> fails: the
  sample ends the process instead of reducing the reserved size to 8.
\<close>

theorem sample_overflow_abort:
  "PrioritizedReplay (\<lambda>n. True) (0::nat) 8 0 (Num 1) (Num (- 1)) 0 = Inr (ex_new 8 10) \<and>
   add ex_pow (ex_new 8 10) [10] (tensor1 [Num 1]) = Inr (ex_replay8\<lparr>storage_m := ex_store8\<rparr>) \<and>
   block_append_reserve ex_store8 (int (length (p_block ex_pending9)))
     = Inr (ex_store8_reserved, 1, 0) \<and>
   cq_reach (storage_m ex_replay8) [ex_pending9] \<and>
   size_m (storage_m ex_replay8) = 10 \<and> safe_size_m (storage_m ex_replay8) = 1 \<and>
   capacity_m ex_replay8 = 8 \<and>
   sample_scan ex_replay8 1 (\<lambda>i. Num (1 / 2)) = Inr ex_scan8 \<and>
   sample_m ex_pow sum_list (\<lambda>dev. True) ex_replay8 1 ''cpu'' (\<lambda>i. Num (1 / 2))
     = Inl AssertionFailure \<and>
   sample ex_pow sum_list (\<lambda>dev. True) ex_replay8 1 ''cpu'' (\<lambda>i. Num (1 / 2))
     = Inl AssertionFailure"
proof -
  have r: "cq_reach (storage_m ex_replay8) [ex_pending9]"
    using cq_reach_ex_store8_reserved by (simp add: ex_replay8_def)
  then have inv: "store_inv (storage_m ex_replay8) [ex_pending9]" by (rule cq_reach_inv)
  have sz: "size_m (storage_m ex_replay8) = 10" "safe_size_m (storage_m ex_replay8) = 1"
    "capacity_m ex_replay8 = 8"
    by (simp_all add: ex_replay8_def ex_store8_reserved_def ex_store8_def)
  have m: "sample_m ex_pow sum_list (\<lambda>dev. True) ex_replay8 1 ''cpu'' (\<lambda>i. Num (1 / 2))
      = Inl AssertionFailure"
    by (rule sample_m_overdrawn[OF inv sample_scan_ex8]) (simp_all add: sz)
  have s: "sample ex_pow sum_list (\<lambda>dev. True) ex_replay8 1 ''cpu'' (\<lambda>i. Num (1 / 2))
      = Inl AssertionFailure"
    by (simp add: sample_def m) (simp add: ex_replay8_def)
  from PrioritizedReplay_ex_new[of 8] add_ex_store8 reserve_ex_store8 r sz sample_scan_ex8 m s
  show ?thesis by simp
qed

section \<open>update skips evicted slots (C5)\<close>
















section \<open>The handshake between sample and update_priority (C6)\<close>

lemma scan_for_lengths:
  "scan_for sz sm seg draw js st = Inr st' \<Longrightarrow>
     length (ids_acc st') = length (ids_acc st) \<and>
     length (weight_acc st') = length (weight_acc st)"
proof (induction js arbitrary: st)
  case Nil
  then show ?case by simp
next
  case (Cons i js)
  let ?sw = "scan_while (store st) sz (rand_of sm seg draw i)
             (acc_sum st) (next_idx st) (w_cur st) (id_cur st)"
  from Cons.prems obtain hit acc nxt w sid where sw: "?sw = Inr (hit, acc, nxt, w, sid)"
    by (cases ?sw) auto
  let ?st1 = "st\<lparr>acc_sum := acc, next_idx := nxt, w_cur := w, id_cur := sid\<rparr>"
  show ?case
  proof (cases hit)
    case True
    obtain element q' where gm: "get_element_and_mark (store ?st1) (nxt - 1) = (element, q')"
      by (cases "get_element_and_mark (store ?st1) (nxt - 1)") auto
    let ?st2 = "?st1\<lparr>store := q', samples := samples ?st1 @ [element],
                      weight_acc := (weight_acc ?st1)[i := w],
                      ids_acc := (ids_acc ?st1)[i := sid]\<rparr>"
    from Cons.prems sw True gm have "scan_for sz sm seg draw js ?st2 = Inr st'"
      by (simp add: Let_def)
    from Cons.IH[OF this] show ?thesis by simp
  next
    case False
    with Cons.prems sw have "scan_for sz sm seg draw js ?st1 = Inr st'"
      by (simp add: Let_def)
    from Cons.IH[OF this] show ?thesis by simp
  qed
qed

lemma sample_m_ids:
  assumes "sample_m pw pack dok P b dev draw = Inr ((batch, w, ids), P')"
  shows "ids \<noteq> []" "int (length ids) = b" "sampled_ids_m P' = sampled_ids_m P"
    "futures_m P' = futures_m P" "prefetch_m P' = prefetch_m P"
proof -
  from assms obtain st q' where st: "sample_scan P b draw = Inr st"
    and w: "weight_acc st \<noteq> []"
    and r: "(batch, w, ids) = (pack (samples st), div_max (sample_scaled pw P st), ids_acc st)"
    and P': "P' = P\<lparr>storage_m := q'\<rparr>"
    by (rule sample_m_Inr)
  note okd = sample_scan_Inr[OF st]
  from okd(2) have "scan_for (safe_size_m (storage_m P)) (sum_snapshot P)
      (fdiv binary32 (sum_snapshot P) (of_int_format binary32 b)) draw [0..<nat b]
      (scan_init P b) = Inr st"
    by (simp add: scan_upto_eq)
  from scan_for_lengths[OF this]
  have l: "length (ids_acc st) = nat b" "length (weight_acc st) = nat b"
    by (simp_all add: scan_init_def)
  from w l have "ids_acc st \<noteq> []" by auto
  with r show "ids \<noteq> []" by simp
  from r l okd(1) show "int (length ids) = b" by simp
  from P' show "sampled_ids_m P' = sampled_ids_m P" "futures_m P' = futures_m P"
    "prefetch_m P' = prefetch_m P" by simp_all
qed

text \<open>
  Claim C6. \<^verbatim>\<open>sample\<close> called while \<^verbatim>\<open>sampled_ids_\<close> is not empty fails its assertion.
  A \<^verbatim>\<open>sample\<close> that returns started with \<^verbatim>\<open>sampled_ids_\<close> empty and leaves it
  non-empty (with one id per sample of the batch when no future was pending).
  \<^verbatim>\<open>update_priority\<close> fails its assertions unless the tensor is one-dimensional with as
  many entries as there are sampled ids; otherwise it calls \<^verbatim>\<open>update\<close> on exactly these
  ids with the priorities raised to \<open>alpha\<close>, and clears \<^verbatim>\<open>sampled_ids_\<close>.
  \<^verbatim>\<open>keep_priority\<close> clears \<^verbatim>\<open>sampled_ids_\<close> and changes nothing else.
\<close>

theorem sample_update_handshake:
  "(sampled_ids_m P \<noteq> [] \<longrightarrow> sample pw pack dok P b dev draw = Inl AssertionFailure) \<and>
   (\<forall>r P'. sample pw pack dok P b dev draw = Inr (r, P') \<longrightarrow>
      sampled_ids_m P = [] \<and> sampled_ids_m P' \<noteq> [] \<and>
      (futures_m P = [] \<longrightarrow> int (length (sampled_ids_m P')) = b)) \<and>
   (t_dim t \<noteq> 1 \<or> size0 t \<noteq> int (length (sampled_ids_m P)) \<longrightarrow>
      update_priority pw P t = Inl AssertionFailure) \<and>
   (t_dim t = 1 \<and> size0 t = int (length (sampled_ids_m P)) \<longrightarrow>
      update_priority pw P t =
        Inr (P\<lparr>storage_m := update (storage_m P) (sampled_ids_m P)
                              (map (\<lambda>p. pw p (alpha_m P)) (t_data t)),
               sampled_ids_m := []\<rparr>)) \<and>
   keep_priority P = P\<lparr>sampled_ids_m := []\<rparr>"
proof (intro conjI allI impI)
  assume "sampled_ids_m P \<noteq> []"
  then show "sample pw pack dok P b dev draw = Inl AssertionFailure" by (simp add: sample_def)
next
  fix r P' assume ok: "sample pw pack dok P b dev draw = Inr (r, P')"
  then show idle: "sampled_ids_m P = []" by (auto simp: sample_def split: if_splits)
  let ?run = "if prefetch_m P = 0 \<or> futures_m P = []
      then sample_m pw pack dok P b dev draw
      else sample_m pw pack dok (P\<lparr>futures_m := tl (futures_m P)\<rparr>)
             (fst (hd (futures_m P))) (snd (hd (futures_m P))) draw"
  from ok idle obtain batch w ids P1 where run: "?run = Inr ((batch, w, ids), P1)"
    and sid: "sampled_ids_m P' = ids"
    by (cases ?run) (auto simp: sample_def split: if_splits sum.splits)
  have "ids \<noteq> [] \<and> (futures_m P = [] \<longrightarrow> int (length ids) = b)"
  proof (cases "prefetch_m P = 0 \<or> futures_m P = []")
    case True
    with run have "sample_m pw pack dok P b dev draw = Inr ((batch, w, ids), P1)" by simp
    from sample_m_ids(1,2)[OF this] show ?thesis by simp
  next
    case False
    with run have "sample_m pw pack dok (P\<lparr>futures_m := tl (futures_m P)\<rparr>)
             (fst (hd (futures_m P))) (snd (hd (futures_m P))) draw = Inr ((batch, w, ids), P1)"
      by simp
    from sample_m_ids(1)[OF this] False show ?thesis by simp
  qed
  with sid show "sampled_ids_m P' \<noteq> []"
    and "futures_m P = [] \<Longrightarrow> int (length (sampled_ids_m P')) = b" by simp_all
next
  assume "t_dim t \<noteq> 1 \<or> size0 t \<noteq> int (length (sampled_ids_m P))"
  then show "update_priority pw P t = Inl AssertionFailure"
    by (auto simp: update_priority_def)
next
  assume "t_dim t = 1 \<and> size0 t = int (length (sampled_ids_m P))"
  then show "update_priority pw P t =
        Inr (P\<lparr>storage_m := update (storage_m P) (sampled_ids_m P)
                              (map (\<lambda>p. pw p (alpha_m P)) (t_data t)),
               sampled_ids_m := []\<rparr>)"
    by (simp add: update_priority_def tensor_pow_def Let_def)
next
  show "keep_priority P = P\<lparr>sampled_ids_m := []\<rparr>" by (simp add: keep_priority_def)
qed

text \<open>An instance: a sample of two records, and the calls that may follow it.\<close>

lemma rnd_ex1:
  "rnd binary32 (1 / 4) = Num (1 / 4)" "rnd binary32 (3 / 4) = Num (3 / 4)"
  "rnd binary32 (1 / 2) = Num (1 / 2)" "rnd binary32 (3 / 2) = Num (3 / 2)"
  "rnd binary32 (1 / 3) = Num (11184811 / 33554432)"
  by (simp_all add: ieee_eval)

lemma sample_ex1:
  "sample ex_pow sum_list (\<lambda>dev. True) ex_replay1 2 ''cpu'' (\<lambda>i. Num 1)
     = Inr ((21, [Num (11184811 / 33554432), Num 1]), ex_sampled)"
  by (simp add: sample_def sample_eval scan_eval rand_of_ex1 rnd_ex1 ex_pow_def
      ex_replay1_def ex_store1_def ex_sampled_def)

theorem sample_update_handshake_witness:
  "sample ex_pow sum_list (\<lambda>dev. True) ex_replay1 2 ''cpu'' (\<lambda>i. Num 1)
     = Inr ((21, [Num (11184811 / 33554432), Num 1]), ex_sampled) \<and>
   sampled_ids_m ex_sampled = [0, 1] \<and>
   sample ex_pow sum_list (\<lambda>dev. True) ex_sampled 2 ''cpu'' (\<lambda>i. Num 1)
     = Inl AssertionFailure \<and>
   update_priority ex_pow ex_sampled (tensor1 [Num 2]) = Inl AssertionFailure \<and>
   update_priority ex_pow ex_sampled (tensor1 [Num 2, Num 5])
     = Inr (ex_replay1\<lparr>storage_m :=
              ex_store1\<lparr>weights_m := [Num 2, Num 5, Num 0, Num 0, Num 0], sum_m := Num 7\<rparr>\<rparr>) \<and>
   keep_priority ex_sampled = ex_replay1"
proof -
  note h1 = sample_update_handshake[of ex_sampled ex_pow sum_list "\<lambda>dev. True" 2 "''cpu''"
      "\<lambda>i. Num 1" "tensor1 [Num 2]"]
  note h2 = sample_update_handshake[of ex_sampled ex_pow sum_list "\<lambda>dev. True" 2 "''cpu''"
      "\<lambda>i. Num 1" "tensor1 [Num 2, Num 5]"]
  have s: "sampled_ids_m ex_sampled = [0, 1]" by (simp add: ex_sampled_def)
  from h1 s have a: "sample ex_pow sum_list (\<lambda>dev. True) ex_sampled 2 ''cpu'' (\<lambda>i. Num 1)
      = Inl AssertionFailure"
    by simp
  from h1 s have b: "update_priority ex_pow ex_sampled (tensor1 [Num 2]) = Inl AssertionFailure"
    by (simp add: tensor1_def size0_def)
  from h2 s have c: "update_priority ex_pow ex_sampled (tensor1 [Num 2, Num 5]) =
      Inr (ex_sampled\<lparr>storage_m := update (storage_m ex_sampled) [0, 1]
                (map (\<lambda>p. ex_pow p (alpha_m ex_sampled)) (t_data (tensor1 [Num 2, Num 5]))),
               sampled_ids_m := []\<rparr>)"
    by (simp add: tensor1_def size0_def)
  from h1 have d: "keep_priority ex_sampled = ex_sampled\<lparr>sampled_ids_m := []\<rparr>" by blast
  from a b c d s sample_ex1 show ?thesis
    by (simp add: ex_sampled_def ex_replay1_def ex_store1_def tensor1_def update_def
        ex_pow_def num_eval)
qed

section \<open>The importance-sampling weights (C1)\<close>

lemma scan_for_pairs:
  assumes c: "0 < capacity q" and h: "0 \<le> head_m q"
  shows "scan_inv q sz st \<Longrightarrow> scan_for sz sm seg draw js st = Inr st' \<Longrightarrow>
    distinct js \<Longrightarrow>
    \<forall>i \<in> set js. i < length (weight_acc st) \<and> i < length (ids_acc st) \<Longrightarrow>
    \<forall>i \<in> set js. weight_acc st' ! i = weights_m q ! nat (ids_acc st' ! i)"
proof (induction js arbitrary: st)
  case Nil
  then show ?case by simp
next
  case (Cons i js)
  from Cons.prems(1,2) obtain m where
    r: "scan_for sz sm seg draw js (scan_hit q st i m) = Inr st'"
    and inv1: "scan_inv q sz (scan_hit q st i m)"
    by (rule scan_for_step[OF c h])
  let ?st1 = "scan_hit q st i m"
  from Cons.prems(3) have di: "distinct js" and ni: "i \<notin> set js" by simp_all
  from Cons.prems(4) have il: "i < length (weight_acc st)" "i < length (ids_acc st)"
    and len1: "\<forall>j \<in> set js. j < length (weight_acc ?st1) \<and> j < length (ids_acc ?st1)"
    by (simp_all add: scan_hit_def)
  note IH = Cons.IH[OF inv1 r di len1]
  note M = scan_for_master[OF c h inv1 r]
  from M ni il have "weight_acc st' ! i = weights_m q ! slot_of q (m - 1)"
    "ids_acc st' ! i = int (slot_of q (m - 1))"
    by (simp_all add: scan_hit_def)
  then have "weight_acc st' ! i = weights_m q ! nat (ids_acc st' ! i)" by simp
  with IH show ?case by simp
qed

lemma sample_scan_pairs:
  assumes inv: "store_inv (storage_m P) ps" and ok: "sample_scan P b draw = Inr st"
  shows "weight_acc st = map (\<lambda>x. weights_m (storage_m P) ! nat x) (ids_acc st)"
proof -
  note d = store_invD[OF inv]
  note S = sample_scan_state[OF inv ok]
  from sample_scan_Inr(2)[OF ok]
  have run: "scan_for (safe_size_m (storage_m P)) (sum_snapshot P)
      (fdiv binary32 (sum_snapshot P) (of_int_format binary32 b)) draw [0..<nat b]
      (scan_init P b) = Inr st"
    by (simp add: scan_upto_eq)
  have len: "\<forall>i \<in> set [0..<nat b]. i < length (weight_acc (scan_init P b)) \<and>
      i < length (ids_acc (scan_init P b))"
    by (simp add: scan_init_def)
  from scan_for_pairs[OF d(1,2) scan_inv_init[OF d(4)] run _ len]
  have "\<forall>i < nat b. weight_acc st ! i = weights_m (storage_m P) ! nat (ids_acc st ! i)"
    by simp
  with S(2,3) show ?thesis by (simp add: list_eq_iff_nth_eq)
qed

text \<open>
  Claim C1, as the code has it. When \<^verbatim>\<open>sample_\<close> returns on a well-formed store, the
  returned weights are: the stored weight of each returned id, divided by the sum read at
  the start of the scan; multiplied by \<^verbatim>\<open>size\<close> and raised to \<open>- beta\<close>, where
  \<^verbatim>\<open>size\<close> is the reserved size read again from \<^verbatim>\<open>storage_.size()\<close> after the scan (not
  the committed size read at its start); divided by the maximum of the vector. Every
  operation is that of a tensor of \<^verbatim>\<open>float\<close>.
\<close>

theorem importance_weights:
  assumes inv: "store_inv (storage_m P) ps"
    and ok: "sample_m pw pack dok P b dev draw = Inr ((batch, weights, ids), P')"
  shows "weights =
     div_max
       (scale_pow pw (size_queue (storage_m P)) (beta_m P)
          (div_scalar (map (\<lambda>x. weights_m (storage_m P) ! nat x) ids)
             (snd (safe_size (storage_m P)))))"
proof -
  from ok obtain st q' where st: "sample_scan P b draw = Inr st"
    and r: "(batch, weights, ids)
        = (pack (samples st), div_max (sample_scaled pw P st), ids_acc st)"
    by (rule sample_m_Inr)
  note S = sample_scan_state[OF inv st]
  from scan_invD(1)[OF S(1)]
  have se: "store st = (storage_m P)\<lparr>evicted_m := evicted_m (store st)\<rparr>" .
  have sz: "size_queue (store st) = size_queue (storage_m P)"
    by (subst se) (simp add: size_queue_def)
  from sample_scan_pairs[OF inv st] r
  have w: "weight_acc st = map (\<lambda>x. weights_m (storage_m P) ! nat x) ids" by simp
  from r have "weights = div_max (sample_scaled pw P st)" by simp
  then show ?thesis
    by (simp add: sample_scaled_def sample_size_reread_def sz w)
qed

text \<open>An instance: two committed records of weights 1 and 5 and one slot reserved by a
  producer that has not committed, so that the reserved size is 3 and the committed
  size 2.\<close>

lemma block_append_ex_store6:
  "block_append (ex_empty 5) [10, 11] [Num 1, Num 5] = Inr ex_store6"
  by (simp add: block_append_def block_append_reserve_def block_append_copy_def
      block_append_commit_def ex_empty_def check_size_def ex_store6_def
      numeral_eq_Suc Let_def num_eval)

lemma reserve_ex_store6:
  "block_append_reserve ex_store6 (int (length [12::nat])) = Inr (ex_store6_reserved, 2, 3)"
  by (simp add: block_append_reserve_def ex_store6_def ex_store6_reserved_def check_size_def
      Let_def)

lemma cq_reach_ex_store6_reserved: "cq_reach ex_store6_reserved [ex_pending]"
proof -
  have "cq_reach (ex_empty 5) []" by (rule cq_reach_ex_empty) simp
  then have "cq_reach ex_store6 []" using block_append_ex_store6 by (rule cq_reach_block_append)
  from cq_reach.reserve[OF this reserve_ex_store6, of "[Num 5]"]
  show ?thesis by (simp add: ex_pending_def)
qed

lemma rand_of_ex6:
  "rand_of (Num 6) (Num 3) (\<lambda>i. Num 1) 0 = Num 1"
  "rand_of (Num 6) (Num 3) (\<lambda>i. Num 1) (Suc 0) = Num 4"
  by (simp_all add: rand_of_def float_0_2_eq ieee_eval)

lemma div_scalar_ex6:
  "div_scalar [Num 1, Num 5] (Num 6) = [Num (11184811 / 67108864), Num (13981013 / 16777216)]"
  by (simp add: div_scalar_def ieee_eval)

lemma scale_ex6:
  "scale_pow ex_pow 3 (Num (- 1)) [Num (11184811 / 67108864), Num (13981013 / 16777216)]
     = [Num (1 / 2), Num (5 / 2)]"
  "scale_pow ex_pow 2 (Num (- 1)) [Num (11184811 / 67108864), Num (13981013 / 16777216)]
     = [Num (11184811 / 33554432), Num (13981013 / 8388608)]"
  by (simp_all add: scale_pow_def ex_pow_def ieee_eval)

lemma div_max_ex6:
  "div_max [Num (1 / 2), Num (5 / 2)] = [Num (13421773 / 67108864), Num 1]"
  "div_max [Num (11184811 / 33554432), Num (13981013 / 8388608)]
     = [Num (13421774 / 67108864), Num 1]"
  by (simp_all add: div_max_def tensor_max_def ieee_eval)

lemma sample_m_ex6:
  "sample_m ex_pow sum_list (\<lambda>dev. True) ex_replay6 2 ''cpu'' (\<lambda>i. Num 1)
     = Inr ((21, [Num (13421773 / 67108864), Num 1], [0, 1]), ex_replay6)"
  by (simp add: sample_m_def sample_size_reread_def size_queue_def sample_scaled_def
      scan_eval rand_of_ex6 div_scalar_ex6 scale_ex6 div_max_ex6
      ex_replay6_def ex_store6_reserved_def ex_store6_def)

theorem importance_weights_witness:
  "sample_m ex_pow sum_list (\<lambda>dev. True) ex_replay6 2 ''cpu'' (\<lambda>i. Num 1)
     = Inr ((21, [Num (13421773 / 67108864), Num 1], [0, 1]), ex_replay6) \<and>
   size_queue (storage_m ex_replay6) = 3 \<and> fst (safe_size (storage_m ex_replay6)) = 2 \<and>
   [Num (13421773 / 67108864), Num 1] =
     div_max
       (scale_pow ex_pow (size_queue (storage_m ex_replay6)) (beta_m ex_replay6)
          (div_scalar (map (\<lambda>x. weights_m (storage_m ex_replay6) ! nat x) [0, 1])
             (snd (safe_size (storage_m ex_replay6)))))"
proof -
  have inv: "store_inv (storage_m ex_replay6) [ex_pending]"
    using cq_reach_inv[OF cq_reach_ex_store6_reserved] by (simp add: ex_replay6_def)
  from importance_weights[OF inv sample_m_ex6] sample_m_ex6 show ?thesis
    by (simp add: ex_replay6_def ex_store6_reserved_def ex_store6_def size_queue_def
        safe_size_def)
qed

text \<open>On that state the claim as worded fails: with the committed size 2 of the
  snapshot as the multiplier, the first weight would be \<open>13421774 / 2\<^sup>2\<^sup>6\<close>; the call
  returns \<open>13421773 / 2\<^sup>2\<^sup>6\<close>, computed with the reserved size 3. (In exact arithmetic a
  positive multiplier cancels in the division by the maximum; in \<^verbatim>\<open>float\<close> the products
  \<open>3 w\<close> are rounded and the quotients differ.)\<close>

theorem importance_weights_counterexample:
  "cq_reach (storage_m ex_replay6) [ex_pending] \<and>
   fst (safe_size (storage_m ex_replay6)) = 2 \<and> size_queue (storage_m ex_replay6) = 3 \<and>
   sample_m ex_pow sum_list (\<lambda>dev. True) ex_replay6 2 ''cpu'' (\<lambda>i. Num 1)
     = Inr ((21, [Num (13421773 / 67108864), Num 1], [0, 1]), ex_replay6) \<and>
   div_max
     (scale_pow ex_pow (fst (safe_size (storage_m ex_replay6))) (beta_m ex_replay6)
        (div_scalar (map (\<lambda>x. weights_m (storage_m ex_replay6) ! nat x) [0, 1])
           (snd (safe_size (storage_m ex_replay6)))))
     = [Num (13421774 / 67108864), Num 1] \<and>
   [Num (13421773 / 67108864), Num 1] \<noteq> [Num (13421774 / 67108864), Num (1::real)]"
proof -
  have r: "cq_reach (storage_m ex_replay6) [ex_pending]"
    using cq_reach_ex_store6_reserved by (simp add: ex_replay6_def)
  have c: "div_max
     (scale_pow ex_pow (fst (safe_size (storage_m ex_replay6))) (beta_m ex_replay6)
        (div_scalar (map (\<lambda>x. weights_m (storage_m ex_replay6) ! nat x) [0, 1])
           (snd (safe_size (storage_m ex_replay6)))))
     = [Num (13421774 / 67108864), Num 1]"
    by (simp add: safe_size_def to_format_Num rnd_numeral_binary32 div_scalar_ex6 scale_ex6
        div_max_ex6 ex_replay6_def ex_store6_reserved_def ex_store6_def)
  from r c sample_m_ex6 show ?thesis
    by (simp add: ex_replay6_def ex_store6_reserved_def ex_store6_def size_queue_def
        safe_size_def)
qed

section \<open>A weight sum of at most 0.2 (C10)\<close>
















section \<open>get_new_content (C2)\<close>

lemma slot_of_inj:
  assumes c: "0 < capacity q" and a: "a < nat (capacity q)" and b: "b < nat (capacity q)"
    and e: "slot_of q a = slot_of q b"
  shows "a = b"
proof -
  let ?c = "capacity q"
  from e have "int (slot_of q a) = int (slot_of q b)" by simp
  then have "(head_m q + int a) mod ?c = (head_m q + int b) mod ?c"
    by (simp only: slot_of_bounds(1)[OF c])
  then have "?c dvd (head_m q + int a) - (head_m q + int b)"
    by (simp only: mod_eq_dvd_iff)
  then have d: "?c dvd int a - int b" by simp
  show ?thesis
  proof (rule ccontr)
    assume ne: "a \<noteq> b"
    show False
    proof (cases "a < b")
      case True
      from d have "?c dvd int b - int a" by (simp add: dvd_diff_commute)
      moreover from True b have "0 < int b - int a" "int b - int a < ?c" by simp_all
      ultimately show False using zdvd_not_zless by blast
    next
      case False
      with ne have "b < a" by simp
      with a have "0 < int a - int b" "int a - int b < ?c" by simp_all
      with d show False using zdvd_not_zless by blast
    qed
  qed
qed

lemma copy_loop_char:
  assumes c: "0 < capacity q" and h: "0 \<le> head_m q"
    and start: "start = int (slot_of q s)"
  shows "s + i + length xs \<le> nat (capacity q) \<Longrightarrow>
    length E = nat (capacity q) \<Longrightarrow> length W = nat (capacity q) \<Longrightarrow>
    \<exists>E' W' acc'. copy_loop (capacity q) start xs ws i E W acc = (E', W', acc') \<and>
      length E' = length E \<and> length W' = length W \<and>
      (\<forall>k < length xs. E' ! slot_of q (s + i + k) = xs ! k \<and>
                        W' ! slot_of q (s + i + k) = ws ! (i + k)) \<and>
      (\<forall>k < s + i. E' ! slot_of q k = E ! slot_of q k \<and> W' ! slot_of q k = W ! slot_of q k)"
proof (induction xs arbitrary: i E W acc)
  case Nil
  then show ?case by simp
next
  case (Cons x xs)
  let ?c = "capacity q"
  let ?j = "slot_of q (s + i)"
  have "(start + int i) smod ?c = (start + int i) mod ?c"
    unfolding start using c by (intro smod_nonneg) auto
  also have "\<dots> = ((head_m q + int s) mod ?c + int i) mod ?c"
    unfolding start by (simp only: slot_of_bounds(1)[OF c])
  also have "\<dots> = (head_m q + int s + int i) mod ?c" by (rule mod_add_left_eq)
  also have "\<dots> = int ?j" by (simp add: slot_of_bounds(1)[OF c] algebra_simps)
  finally have j: "(start + int i) smod ?c = int ?j" .
  let ?E1 = "E[?j := x]" and ?W1 = "W[?j := ws ! i]"
  have step: "copy_loop ?c start (x # xs) ws i E W acc
      = copy_loop ?c start xs ws (Suc i) ?E1 ?W1 (fadd binary32 acc (ws ! i))"
    by (simp add: j Let_def)
  from Cons.prems have b1: "s + Suc i + length xs \<le> nat ?c" by simp
  from Cons.prems have l1: "length ?E1 = nat ?c" "length ?W1 = nat ?c" by simp_all
  from Cons.IH[OF b1 l1, of "fadd binary32 acc (ws ! i)"] obtain E' W' acc' where
    r: "copy_loop ?c start xs ws (Suc i) ?E1 ?W1 (fadd binary32 acc (ws ! i)) = (E', W', acc')"
    and len: "length E' = length ?E1" "length W' = length ?W1"
    and new: "\<forall>k < length xs. E' ! slot_of q (s + Suc i + k) = xs ! k \<and>
                        W' ! slot_of q (s + Suc i + k) = ws ! (Suc i + k)"
    and old: "\<forall>k < s + Suc i. E' ! slot_of q k = ?E1 ! slot_of q k \<and>
                        W' ! slot_of q k = ?W1 ! slot_of q k"
    by blast
  have jl: "?j < length E" "?j < length W"
    using slot_of_bounds(2)[OF c, of "s + i"] Cons.prems by simp_all
  have at: "E' ! ?j = x \<and> W' ! ?j = ws ! i"
    using old jl by simp
  have new': "E' ! slot_of q (s + i + k) = (x # xs) ! k \<and>
      W' ! slot_of q (s + i + k) = ws ! (i + k)" if "k < length (x # xs)" for k
  proof (cases k)
    case 0
    with at show ?thesis by simp
  next
    case (Suc k')
    with that have "k' < length xs" by simp
    with new Suc show ?thesis by simp
  qed
  have old': "E' ! slot_of q k = E ! slot_of q k \<and> W' ! slot_of q k = W ! slot_of q k"
    if "k < s + i" for k
  proof -
    from that Cons.prems(1) have kb: "k < nat ?c" and sb: "s + i < nat ?c" by simp_all
    from that have "k \<noteq> s + i" by simp
    with slot_of_inj[OF c kb sb] have "slot_of q k \<noteq> ?j" by blast
    moreover from that old have "E' ! slot_of q k = ?E1 ! slot_of q k"
      "W' ! slot_of q k = ?W1 ! slot_of q k" by simp_all
    ultimately show ?thesis by simp
  qed
  from r len new' old' show ?case unfolding step by auto
qed

lemma map_upt_shift:
  assumes "\<forall>k < length xs. f (a + k) = xs ! k"
  shows "map f [a..<a + length xs] = xs"
proof (rule nth_equalityI)
  show "length (map f [a..<a + length xs]) = length xs" by simp
  fix i assume "i < length (map f [a..<a + length xs])"
  then have "i < length xs" by simp
  with assms show "map f [a..<a + length xs] ! i = xs ! i" by simp
qed

lemma block_append_contents:
  assumes inv: "store_inv q []" and ok: "block_append q xs ws = Inr q'"
  shows "store_inv q' []"
    "contents_of q' (nat (safe_size_m q')) = contents_of q (nat (safe_size_m q)) @ xs"
    "stored_weights q' (nat (safe_size_m q')) = stored_weights q (nat (safe_size_m q)) @ ws"
proof -
  let ?c = "capacity q" and ?n = "int (length xs)"
  note d = store_invD[OF inv]
  from ok obtain q1 start fin where
    res: "block_append_reserve q ?n = Inr (q1, start, fin)"
    by (auto simp: block_append_def split: sum.splits)
  with ok obtain q2 s where cp: "block_append_copy q1 start xs ws = Inr (q2, s)"
    and cm: "block_append_commit q2 start fin ?n s = Inr q'"
    by (auto simp: block_append_def split: sum.splits)
  let ?p = "\<lparr>p_start = start, p_fin = fin, p_block = xs, p_weights = ws\<rparr>"
  from store_inv_reserve[OF inv res, of ws] have i1: "store_inv q1 [?p]" by simp
  from store_inv_copy[OF i1 cp] have i2: "store_inv q2 [?p]" .
  have "store_inv q' (take 0 [?p] @ drop (Suc 0) [?p])"
    by (rule store_inv_commit[OF i2]) (use cm in simp_all)
  then show "store_inv q' []" by simp
  from res have room: "size_m q + ?n \<le> ?c"
    and q1: "q1 = q\<lparr>tail_m := fin, size_m := size_m q + ?n\<rparr>"
    and st: "start = tail_m q"
    by (auto simp: block_append_reserve_def Let_def split: if_splits)
  from cp obtain E' W' where
    cl: "copy_loop (capacity q1) start xs ws 0 (elements_m q1) (weights_m q1) (Num 0)
           = (E', W', s)"
    and q2: "q2 = q1\<lparr>elements_m := E', weights_m := W'\<rparr>"
    and lw: "length ws = length xs"
    by (auto simp: block_append_copy_def split: if_splits prod.splits)
  from cm have q': "q' = q2\<lparr>safe_tail_m := fin, safe_size_m := safe_size_m q2 + ?n,
      sum_m := fadd binary64 (sum_m q2) s\<rparr>"
    by (auto simp: block_append_commit_def Let_def split: if_splits)
  from d(9) have qs: "size_m q = safe_size_m q" by (simp add: pending_total_def)
  let ?s = "nat (safe_size_m q)"
  have start: "start = int (slot_of q ?s)"
    using d(4,7) by (simp add: st qs slot_of_bounds(1)[OF d(1)])
  have bound: "?s + 0 + length xs \<le> nat ?c" using room d(4) qs by simp
  from copy_loop_char[OF d(1,2) start bound d(12,13), of ws "Num 0"] cl
  have new: "\<forall>k < length xs. E' ! slot_of q (?s + k) = xs ! k \<and>
                        W' ! slot_of q (?s + k) = ws ! k"
    and old: "\<forall>k < ?s. E' ! slot_of q k = elements_m q ! slot_of q k \<and>
                        W' ! slot_of q k = weights_m q ! slot_of q k"
    by (auto simp: q1)
  have sl: "slot_of q' = slot_of q" by (simp add: fun_eq_iff slot_of_def q' q2 q1)
  have el: "elements_m q' = E'" and we: "weights_m q' = W'" by (simp_all add: q' q2)
  have ss: "nat (safe_size_m q') = ?s + length xs"
    using d(4) by (simp add: q' q2 q1 nat_add_distrib)
  have up: "[0..<?s + length xs] = [0..<?s] @ [?s..<?s + length xs]"
    by (rule upt_add_eq_append) simp
  have e1: "map (\<lambda>k. E' ! slot_of q k) [0..<?s] = contents_of q ?s"
    using old by (simp add: contents_of_def)
  have e2: "map (\<lambda>k. E' ! slot_of q k) [?s..<?s + length xs] = xs"
    using new by (intro map_upt_shift) simp
  show "contents_of q' (nat (safe_size_m q')) = contents_of q ?s @ xs"
    unfolding contents_of_def[of q'] ss sl el up map_append e1 e2 ..
  have w1: "map (\<lambda>k. W' ! slot_of q k) [0..<?s] = stored_weights q ?s"
    using old by (simp add: stored_weights_def)
  from new lw have "\<forall>k < length ws. W' ! slot_of q (?s + k) = ws ! k" by simp
  then have "map (\<lambda>k. W' ! slot_of q k) [?s..<?s + length ws] = ws"
    by (rule map_upt_shift)
  then have w2: "map (\<lambda>k. W' ! slot_of q k) [?s..<?s + length xs] = ws" by (simp add: lw)
  show "stored_weights q' (nat (safe_size_m q')) = stored_weights q ?s @ ws"
    unfolding stored_weights_def[of q'] ss sl we up map_append w1 w2 ..
qed

lemma drain_loop_char:
  assumes c: "0 < capacity q" and h: "0 \<le> head_m q"
  shows "drain_loop (q\<lparr>evicted_m := E\<rparr>) curs smp weights =
    (q\<lparr>evicted_m := fold (\<lambda>c E. E[slot_of q c := False]) curs E\<rparr>,
     smp @ map (\<lambda>c. elements_m q ! slot_of q c) curs,
     fold (\<lambda>c W. W[c := weights_m q ! slot_of q c]) curs weights)"
proof (induction curs arbitrary: E smp weights)
  case Nil
  then show ?case by simp
next
  case (Cons cur curs)
  let ?q = "q\<lparr>evicted_m := E\<rparr>"
  have c': "0 < capacity ?q" and h': "0 \<le> head_m ?q" using c h by simp_all
  have gm: "get_element_and_mark ?q (int cur) =
      (elements_m q ! slot_of q cur, q\<lparr>evicted_m := E[slot_of q cur := False]\<rparr>)"
    using get_element_and_mark_slot[OF c' h', of cur] by simp
  have gw: "fst (get_weight (q\<lparr>evicted_m := E[slot_of q cur := False]\<rparr>) (int cur))
      = weights_m q ! slot_of q cur"
    using get_weight_slot[of "q\<lparr>evicted_m := E[slot_of q cur := False]\<rparr>" cur] c h by simp
  show ?case
    by (simp only: drain_loop.simps gm prod.case gw Cons.IH) simp
qed

lemma fold_update_upt:
  "m \<le> length W \<Longrightarrow> fold (\<lambda>c W. W[c := f c]) [0..<m] W = map f [0..<m] @ drop m W"
proof (induction m)
  case 0
  then show ?case by simp
next
  case (Suc m)
  then have m: "m < length W" by simp
  then have IH: "fold (\<lambda>c W. W[c := f c]) [0..<m] W = map f [0..<m] @ drop m W"
    using Suc.IH by simp
  have "fold (\<lambda>c W. W[c := f c]) [0..<Suc m] W = (map f [0..<m] @ drop m W)[m := f m]"
    by (simp add: IH)
  also have "\<dots> = map f [0..<m] @ (drop m W)[0 := f m]"
    by (simp add: list_update_append)
  also have "(drop m W)[0 := f m] = f m # drop (Suc m) W"
    using m by (simp add: Cons_nth_drop_Suc[symmetric])
  finally show ?case by simp
qed

lemma get_new_content_char:
  assumes inv: "store_inv (storage_m P) ps"
    and pos: "0 < num_add_m P - last_query_m P"
    and le: "num_add_m P - last_query_m P \<le> safe_size_m (storage_m P)"
  shows "\<exists>q'. get_new_content pack d P =
      Inr ((num_add_m P - last_query_m P,
            pack (contents_of (storage_m P) (nat (num_add_m P - last_query_m P))),
            stored_weights (storage_m P) (nat (num_add_m P - last_query_m P))),
           P\<lparr>storage_m := q', last_query_m := num_add_m P\<rparr>) \<and>
      store_inv q' ps \<and>
      safe_size_m q' = safe_size_m (storage_m P) - (num_add_m P - last_query_m P) \<and>
      size_m q' = size_m (storage_m P) - (num_add_m P - last_query_m P)"
proof -
  let ?q = "storage_m P" and ?n = "num_add_m P - last_query_m P"
  note d = store_invD[OF inv]
  let ?E = "fold (\<lambda>c E. E[slot_of ?q c := False]) [0..<nat ?n] (evicted_m ?q)"
  let ?qe = "?q\<lparr>evicted_m := ?E\<rparr>"
  have "drain_loop (?q\<lparr>evicted_m := evicted_m ?q\<rparr>) [0..<nat ?n] [] (replicate (nat ?n) (Num 1)) =
    (?qe, [] @ map (\<lambda>c. elements_m ?q ! slot_of ?q c) [0..<nat ?n],
     fold (\<lambda>c W. W[c := weights_m ?q ! slot_of ?q c]) [0..<nat ?n] (replicate (nat ?n) (Num 1)))"
    using d(1,2) by (rule drain_loop_char)
  moreover have "fold (\<lambda>c W. W[c := weights_m ?q ! slot_of ?q c]) [0..<nat ?n]
      (replicate (nat ?n) (Num 1)) = stored_weights ?q (nat ?n)"
    using fold_update_upt[of "nat ?n" "replicate (nat ?n) (Num 1)"
        "\<lambda>c. weights_m ?q ! slot_of ?q c"]
    by (simp add: stored_weights_def)
  ultimately have dl: "drain_loop ?q [0..<nat ?n] [] (replicate (nat ?n) (Num 1)) =
      (?qe, contents_of ?q (nat ?n), stored_weights ?q (nat ?n))"
    by (simp add: contents_of_def)
  have inve: "store_inv ?qe ps"
    by (rule store_inv_evicted[OF inv]) simp
  from pos have n0: "0 \<le> ?n" by simp
  from le have le': "?n \<le> safe_size_m ?qe" by simp
  from block_pop_char[OF inve n0 le'] obtain q' where
    bp: "block_pop ?qe ?n = Inr q'"
    and ss: "safe_size_m q' = safe_size_m ?q - ?n" and sz: "size_m q' = size_m ?q - ?n"
    by simp
  from store_inv_pop[OF inve _ bp] n0 have invq': "store_inv q' ps" by simp
  have "get_new_content pack d P =
      Inr ((?n, pack (contents_of ?q (nat ?n)), stored_weights ?q (nat ?n)),
           P\<lparr>storage_m := q', last_query_m := num_add_m P\<rparr>)"
    using pos by (simp add: get_new_content_def Let_def dl bp)
  with invq' ss sz show ?thesis by blast
qed

lemma add_Inr:
  assumes "add pw P xs t = Inr P1"
  obtains q1 where "t_dim t = 1" "length (t_data t) = length xs"
    "block_append (storage_m P) xs (map (\<lambda>p. pw p (alpha_m P)) (t_data t)) = Inr q1"
    "P1 = P\<lparr>storage_m := q1, num_add_m := num_add_m P + int (length xs)\<rparr>"
proof -
  from assms have t: "t_dim t = 1" and l: "size0 t = int (length xs)"
    by (auto simp: add_def split: if_splits)
  from l have l': "length (t_data t) = length xs" by (simp add: size0_def)
  from assms t l obtain q1 where
    "block_append (storage_m P) xs (map (\<lambda>p. pw p (alpha_m P)) (t_data t)) = Inr q1"
    "P1 = P\<lparr>storage_m := q1, num_add_m := num_add_m P + int (length xs)\<rparr>"
    by (auto simp: add_def Let_def tensor_pow_def split: sum.splits)
  with t l' show thesis by (rule that)
qed

lemma add_all_contents:
  "store_inv (storage_m P) [] \<Longrightarrow>
   safe_size_m (storage_m P) = num_add_m P - last_query_m P \<Longrightarrow>
   add_all pw P calls = Inr P1 \<Longrightarrow>
   store_inv (storage_m P1) [] \<and>
   safe_size_m (storage_m P1) = num_add_m P1 - last_query_m P1 \<and>
   last_query_m P1 = last_query_m P \<and> alpha_m P1 = alpha_m P \<and>
   num_add_m P1 = num_add_m P + int (length (concat (map fst calls))) \<and>
   contents_of (storage_m P1) (nat (safe_size_m (storage_m P1)))
     = contents_of (storage_m P) (nat (safe_size_m (storage_m P))) @ concat (map fst calls) \<and>
   stored_weights (storage_m P1) (nat (safe_size_m (storage_m P1)))
     = stored_weights (storage_m P) (nat (safe_size_m (storage_m P))) @
       concat (map (\<lambda>call. map (\<lambda>p. pw p (alpha_m P)) (t_data (snd call))) calls)"
proof (induction calls arbitrary: P)
  case Nil
  then show ?case by simp
next
  case (Cons call calls)
  from Cons.prems(3) obtain Pa where a: "add pw P (fst call) (snd call) = Inr Pa"
    and r: "add_all pw Pa calls = Inr P1"
    by (cases "add pw P (fst call) (snd call)") auto
  from a obtain q1 where
    ba: "block_append (storage_m P) (fst call)
           (map (\<lambda>p. pw p (alpha_m P)) (t_data (snd call))) = Inr q1"
    and Pa: "Pa = P\<lparr>storage_m := q1, num_add_m := num_add_m P + int (length (fst call))\<rparr>"
    by (rule add_Inr)
  note C = block_append_contents[OF Cons.prems(1) ba]
  note F = block_append_frame[OF ba]
  have i1: "store_inv (storage_m Pa) []" using C(1) by (simp add: Pa)
  have s1: "safe_size_m (storage_m Pa) = num_add_m Pa - last_query_m Pa"
    using F(5) Cons.prems(2) by (simp add: Pa)
  have al: "alpha_m Pa = alpha_m P" and lq: "last_query_m Pa = last_query_m P"
    and na: "num_add_m Pa = num_add_m P + int (length (fst call))"
    and st: "storage_m Pa = q1"
    by (simp_all add: Pa)
  from Cons.IH[OF i1 s1 r]
  have I1: "store_inv (storage_m P1) []"
    and I2: "safe_size_m (storage_m P1) = num_add_m P1 - last_query_m P1"
    and I3: "last_query_m P1 = last_query_m Pa" and I4: "alpha_m P1 = alpha_m Pa"
    and I5: "num_add_m P1 = num_add_m Pa + int (length (concat (map fst calls)))"
    and I6: "contents_of (storage_m P1) (nat (safe_size_m (storage_m P1)))
       = contents_of (storage_m Pa) (nat (safe_size_m (storage_m Pa))) @ concat (map fst calls)"
    and I7: "stored_weights (storage_m P1) (nat (safe_size_m (storage_m P1)))
       = stored_weights (storage_m Pa) (nat (safe_size_m (storage_m Pa))) @
         concat (map (\<lambda>call. map (\<lambda>p. pw p (alpha_m Pa)) (t_data (snd call))) calls)"
    by blast+
  show ?case
  proof (intro conjI)
    show "store_inv (storage_m P1) []" by (rule I1)
    show "safe_size_m (storage_m P1) = num_add_m P1 - last_query_m P1" by (rule I2)
    show "last_query_m P1 = last_query_m P" using I3 lq by simp
    show "alpha_m P1 = alpha_m P" using I4 al by simp
    show "num_add_m P1 = num_add_m P + int (length (concat (map fst (call # calls))))"
      using I5 na by simp
    show "contents_of (storage_m P1) (nat (safe_size_m (storage_m P1)))
       = contents_of (storage_m P) (nat (safe_size_m (storage_m P))) @
         concat (map fst (call # calls))"
      unfolding I6 st C(2) by simp
    show "stored_weights (storage_m P1) (nat (safe_size_m (storage_m P1)))
       = stored_weights (storage_m P) (nat (safe_size_m (storage_m P))) @
         concat (map (\<lambda>call. map (\<lambda>p. pw p (alpha_m P)) (t_data (snd call))) (call # calls))"
      unfolding I7 st C(3) al by simp
  qed
qed

lemma drained_init:
  assumes c: "0 < c" "c \<le> 1717986918" "alloc (c + c div 4)"
  shows "\<exists>P. PrioritizedReplay alloc d c seed alpha beta prefetch = Inr P \<and> drained P"
proof -
  note P = PrioritizedReplay_Inr[of c alloc d seed alpha beta prefetch, OF c]
  from c(1) have p: "0 < c + c div 4" by simp
  have "store_inv \<lparr>capacity = c + c div 4, head_m = 0, tail_m = 0, size_m = 0,
             safe_tail_m = 0, safe_size_m = 0, sum_m = Num 0,
             evicted_m = replicate (nat (c + c div 4)) False,
             elements_m = replicate (nat (c + c div 4)) d,
             weights_m = replicate (nat (c + c div 4)) (Num 0)\<rparr> []"
    using p by (intro store_invI) (simp_all add: pending_total_def)
  with P show ?thesis by (simp add: drained_def)
qed

text \<open>
  Claim C2, as the code has it. Start from a buffer that is drained (just constructed, or
  just after \<^verbatim>\<open>get_new_content\<close>: nothing committed, \<^verbatim>\<open>last_query_\<close> equal to
  \<^verbatim>\<open>num_add_\<close>) and let a sequence of \<^verbatim>\<open>add\<close> calls return, with nothing else popping
  the store. Then \<^verbatim>\<open>get_new_content\<close> returns: the count \<^verbatim>\<open>num_add_ - last_query_\<close>,
  which is the number of records added; these records in the order they were added
  (packed; a default-constructed record when there is none); and their stored weights
  \<open>priority ^ alpha\<close>: the tensor of ones it allocates is overwritten entry by entry with
  \<^verbatim>\<open>get_weight\<close>. Afterwards the store is empty and the buffer is drained again.
\<close>

theorem get_new_content_returns_added:
  assumes dr: "drained P" and adds: "add_all pw P calls = Inr P1"
  shows "\<exists>P2. get_new_content pack d P1 =
       Inr ((num_add_m P1 - last_query_m P1,
             (if concat (map fst calls) = [] then d else pack (concat (map fst calls))),
             concat (map (\<lambda>call. map (\<lambda>p. pw p (alpha_m P)) (t_data (snd call))) calls)),
            P2) \<and>
       num_add_m P1 - last_query_m P1 = int (length (concat (map fst calls))) \<and>
       drained P2 \<and> size_m (storage_m P2) = 0"
proof -
  let ?xs = "concat (map fst calls)"
  let ?ws = "concat (map (\<lambda>call. map (\<lambda>p. pw p (alpha_m P)) (t_data (snd call))) calls)"
  from dr have inv: "store_inv (storage_m P) []" and s0: "safe_size_m (storage_m P) = 0"
    and nq: "num_add_m P = last_query_m P" by (simp_all add: drained_def)
  from s0 nq have s: "safe_size_m (storage_m P) = num_add_m P - last_query_m P" by simp
  from add_all_contents[OF inv s adds]
  have I1: "store_inv (storage_m P1) []"
    and I2: "safe_size_m (storage_m P1) = num_add_m P1 - last_query_m P1"
    and I3: "last_query_m P1 = last_query_m P"
    and I5: "num_add_m P1 = num_add_m P + int (length ?xs)"
    and I6: "contents_of (storage_m P1) (nat (safe_size_m (storage_m P1)))
       = contents_of (storage_m P) (nat (safe_size_m (storage_m P))) @ ?xs"
    and I7: "stored_weights (storage_m P1) (nat (safe_size_m (storage_m P1)))
       = stored_weights (storage_m P) (nat (safe_size_m (storage_m P))) @ ?ws"
    by blast+
  let ?n = "num_add_m P1 - last_query_m P1"
  have n: "?n = int (length ?xs)" using I5 I3 nq by simp
  have c6: "contents_of (storage_m P1) (nat ?n) = ?xs"
    using I6 unfolding I2 s0 by (simp add: contents_of_def)
  have c7: "stored_weights (storage_m P1) (nat ?n) = ?ws"
    using I7 unfolding I2 s0 by (simp add: stored_weights_def)
  from store_invD(9)[OF I1] have qs: "size_m (storage_m P1) = safe_size_m (storage_m P1)"
    by (simp add: pending_total_def)
  show ?thesis
  proof (cases "?xs = []")
    case True
    with n have z: "?n = 0" by simp
    from c7 z have w: "?ws = []" by (simp add: stored_weights_def)
    have g: "get_new_content pack d P1 = Inr ((0, d, []), P1)"
      using z by (simp add: get_new_content_def)
    have "drained P1" using I1 I2 z by (simp add: drained_def)
    moreover have "size_m (storage_m P1) = 0" using qs I2 z by simp
    ultimately show ?thesis using g z True w n by auto
  next
    case False
    with n have pos: "0 < ?n" by simp
    have le: "?n \<le> safe_size_m (storage_m P1)" using I2 by simp
    from get_new_content_char[OF I1 pos le, of pack d] obtain q' where
      g: "get_new_content pack d P1 =
        Inr ((?n, pack (contents_of (storage_m P1) (nat ?n)),
              stored_weights (storage_m P1) (nat ?n)),
             P1\<lparr>storage_m := q', last_query_m := num_add_m P1\<rparr>)"
      and iq: "store_inv q' []" and sq: "safe_size_m q' = safe_size_m (storage_m P1) - ?n"
      and zq: "size_m q' = size_m (storage_m P1) - ?n"
      by blast
    let ?P2 = "P1\<lparr>storage_m := q', last_query_m := num_add_m P1\<rparr>"
    have "drained ?P2" using iq sq I2 by (simp add: drained_def)
    moreover have "size_m (storage_m ?P2) = 0" using zq qs I2 by simp
    ultimately show ?thesis using g False n unfolding c6 c7 by auto
  qed
qed

text \<open>An instance: two records added with priorities 1 and 3 (\<open>alpha = 1\<close>).\<close>

lemmas drain_eval =
  get_new_content_def get_element_and_mark_def get_weight_def block_pop_def check_size_def
  Let_def upt_rec eval_nat_numeral

lemma get_new_content_ex1:
  "get_new_content sum_list 0 ex_replay1 = Inr ((2, 21, [Num 1, Num 3]), ex_drained1)"
  by (simp add: drain_eval num_eval ex_replay1_def ex_store1_def ex_drained1_def)

theorem get_new_content_returns_added_witness:
  "PrioritizedReplay (\<lambda>n. True) (0::nat) 4 0 (Num 1) (Num (- 1)) 0 = Inr (ex_new 4 5) \<and>
   drained (ex_new 4 5) \<and>
   add_all ex_pow (ex_new 4 5) [([10, 11], tensor1 [Num 1, Num 3])] = Inr ex_replay1 \<and>
   (\<exists>P2. get_new_content sum_list 0 ex_replay1
       = Inr ((2, sum_list [10, 11], [Num 1, Num 3]), P2) \<and>
     drained P2 \<and> size_m (storage_m P2) = 0)"
proof -
  note c = PrioritizedReplay_ex_new[of 4]
  from drained_init[of 4 "\<lambda>n. True" "0::nat" 0 "Num 1" "Num (- 1)" 0] c
  have dr: "drained (ex_new 4 5)" by simp
  have adds: "add_all ex_pow (ex_new 4 5) [([10, 11], tensor1 [Num 1, Num 3])] = Inr ex_replay1"
    using add_ex_replay1 by simp
  from get_new_content_returns_added[OF dr adds, of sum_list 0]
  have "\<exists>P2. get_new_content sum_list 0 ex_replay1
       = Inr ((2, sum_list [10, 11], [Num 1, Num 3]), P2) \<and>
     drained P2 \<and> size_m (storage_m P2) = 0"
    by (simp add: tensor1_def ex_new_def ex_pow_def) (simp add: ex_replay1_def)
  with c dr adds show ?thesis by simp
qed

text \<open>The claim as worded fails in two ways. The weights returned for priorities 1 and 3
  are \<open>[1, 3]\<close>, not ones. And when a \<^verbatim>\<open>sample\<close> has evicted a record in between, fewer
  records are committed than \<^verbatim>\<open>num_add_ - last_query_\<close>, and the assertion of
  \<^verbatim>\<open>block_pop\<close> on \<^verbatim>\<open>safe_size_\<close> fails.\<close>

lemma drain_loop_safe_size:
  "safe_size_m (fst (drain_loop q curs smp ws)) = safe_size_m q"
  by (induction curs arbitrary: q smp ws) (simp_all add: get_element_and_mark_def Let_def)

lemma get_new_content_overdrawn:
  assumes "0 < num_add_m P - last_query_m P"
    and "safe_size_m (storage_m P) < num_add_m P - last_query_m P"
  shows "get_new_content pack d P = Inl AssertionFailure"
proof -
  let ?n = "num_add_m P - last_query_m P"
  obtain q smp ws where dl:
    "drain_loop (storage_m P) [0..<nat ?n] [] (replicate (nat ?n) (Num 1)) = (q, smp, ws)"
    by (cases "drain_loop (storage_m P) [0..<nat ?n] [] (replicate (nat ?n) (Num 1))") auto
  from drain_loop_safe_size[of "storage_m P" "[0..<nat ?n]" "[]" "replicate (nat ?n) (Num 1)"] dl
  have "safe_size_m q = safe_size_m (storage_m P)" by simp
  with assms(2) have "block_pop q ?n = Inl AssertionFailure"
    by (intro block_pop_overdrawn) simp
  with assms(1) dl show ?thesis by (simp add: get_new_content_def Let_def)
qed

theorem get_new_content_counterexample:
  "PrioritizedReplay (\<lambda>n. True) (0::nat) 4 0 (Num 1) (Num (- 1)) 0 = Inr (ex_new 4 5) \<and>
   add ex_pow (ex_new 4 5) [10, 11] (tensor1 [Num 1, Num 3]) = Inr ex_replay1 \<and>
   get_new_content sum_list 0 ex_replay1 = Inr ((2, 21, [Num 1, Num 3]), ex_drained1) \<and>
   [Num 1, Num 3] \<noteq> replicate 2 (Num 1) \<and>
   sample_m ex_pow sum_list (\<lambda>dev. True) ex_replay5 1 ''cpu'' (\<lambda>i. Num 1)
     = Inr ((10, [Num 1], [0]), ex_replay5\<lparr>storage_m := ex_store5_popped\<rparr>) \<and>
   get_new_content sum_list 0 (ex_replay5\<lparr>storage_m := ex_store5_popped\<rparr>)
     = Inl AssertionFailure"
proof -
  have "get_new_content sum_list 0 (ex_replay5\<lparr>storage_m := ex_store5_popped\<rparr>)
     = Inl AssertionFailure"
    by (rule get_new_content_overdrawn)
       (simp_all add: ex_replay5_def ex_store5_popped_def ex_store5_def)
  with PrioritizedReplay_ex_new[of 4] add_ex_replay1 get_new_content_ex1 sample_m_ex5
  show ?thesis
    by (simp add: eval_nat_numeral)
qed

end
